theory Spec2Isabelle
  imports Complex_Main "HOL-Library.AList"
begin

section \<open>Errors and Python list primitives\<close>

text \<open>
  Every exception the modelled code can raise is a value of \<open>error\<close>; a fallible
  computation has type \<open>error + 'a\<close> with \<open>Inl\<close> carrying the exception.
\<close>

datatype error =
    ValueError
  | IndexError
  | KeyError
  | AssertionError
  | NotImplementedError
  | RuntimeError
  | NetworkXUnfeasible
  | NetworkXPointlessConcept
  | NetworkXError

fun bind_err :: "error + 'a \<Rightarrow> ('a \<Rightarrow> error + 'b) \<Rightarrow> error + 'b" where
  "bind_err (Inl e) f = Inl e"
| "bind_err (Inr x) f = f x"

text \<open>A list comprehension \<^verbatim>\<open>[f(x) for x in xs]\<close> whose body may raise.\<close>

fun map_err :: "('a \<Rightarrow> error + 'b) \<Rightarrow> 'a list \<Rightarrow> error + 'b list" where
  "map_err f [] = Inr []"
| "map_err f (x # xs) =
     bind_err (f x) (\<lambda>y. bind_err (map_err f xs) (\<lambda>ys. Inr (y # ys)))"

text \<open>\<^verbatim>\<open>xs.index(x)\<close>: the first position of \<open>x\<close>, \<^verbatim>\<open>ValueError\<close> when absent.\<close>

fun list_index :: "'a list \<Rightarrow> 'a \<Rightarrow> nat option" where
  "list_index [] x = None"
| "list_index (y # ys) x = (if y = x then Some 0 else map_option Suc (list_index ys x))"

definition index_err :: "'a list \<Rightarrow> 'a \<Rightarrow> error + nat" where
  "index_err xs x = (case list_index xs x of None \<Rightarrow> Inl ValueError | Some i \<Rightarrow> Inr i)"

text \<open>\<^verbatim>\<open>xs[i]\<close> for a non-negative index: \<^verbatim>\<open>IndexError\<close> out of range.\<close>

definition nth_err :: "'a list \<Rightarrow> nat \<Rightarrow> error + 'a" where
  "nth_err xs i = (if i < length xs then Inr (xs ! i) else Inl IndexError)"

section \<open>Directed graphs\<close>

text \<open>
  A \<^verbatim>\<open>networkx.DiGraph\<close> keeps its nodes and, per node, its successors and
  predecessors in insertion order. The model keeps the node list and the edge list in
  insertion order; node identifiers are the non-negative integers the generators produce.
\<close>

record digraph =
  nodes :: "nat list"
  edges :: "(nat \<times> nat) list"

definition succ :: "digraph \<Rightarrow> nat \<Rightarrow> nat list" where
  "succ G n = map snd (filter (\<lambda>e. fst e = n) (edges G))"

definition pred :: "digraph \<Rightarrow> nat \<Rightarrow> nat list" where
  "pred G n = map fst (filter (\<lambda>e. snd e = n) (edges G))"

definition in_degree :: "digraph \<Rightarrow> nat \<Rightarrow> nat" where
  "in_degree G n = length (pred G n)"

definition out_degree :: "digraph \<Rightarrow> nat \<Rightarrow> nat" where
  "out_degree G n = length (succ G n)"

definition number_of_nodes :: "digraph \<Rightarrow> nat" where
  "number_of_nodes G = length (nodes G)"

text \<open>
  Well-formed graphs: what the dictionaries of a \<^verbatim>\<open>DiGraph\<close> guarantee (no
  repeated node, no repeated edge, every endpoint a node).
\<close>

definition wf_digraph :: "digraph \<Rightarrow> bool" where
  "wf_digraph G \<longleftrightarrow>
     distinct (nodes G) \<and> distinct (edges G) \<and>
     list_all (\<lambda>e. fst e \<in> set (nodes G) \<and> snd e \<in> set (nodes G)) (edges G)"

text \<open>
  A topological order of \<open>G\<close>: a permutation of its nodes in which every edge goes
  from an earlier to a later position.
\<close>

definition topological :: "digraph \<Rightarrow> nat list \<Rightarrow> bool" where
  "topological G order \<longleftrightarrow>
     distinct order \<and> set order = set (nodes G) \<and>
     list_all (\<lambda>e. case (list_index order (fst e), list_index order (snd e)) of
                     (Some i, Some j) \<Rightarrow> i < j | _ \<Rightarrow> False) (edges G)"

section \<open>Liveness analysis\<close>

text \<open>
  The span loop of \<^verbatim>\<open>RandomNetwork.__init__\<close> (randomnet.py, lines 45-50) and of
  \<^verbatim>\<open>test\<close> (graph.py, lines 117-122):
  \<^verbatim>\<open>
    for nxnode in nxorder:
        nextnodes = [nxorder.index(n) for n in succ[nxnode]]
        span = max(nextnodes) if len(nextnodes) != 0 else G.number_of_nodes()
        ispans.append(span)
  \<close>
  \<^verbatim>\<open>succ[nxnode]\<close> raises \<^verbatim>\<open>KeyError\<close> for a node the graph does not have.
\<close>

definition span_of :: "digraph \<Rightarrow> nat list \<Rightarrow> nat \<Rightarrow> error + nat" where
  "span_of G nxorder nxnode =
     (if nxnode \<notin> set (nodes G) then Inl KeyError
      else bind_err (map_err (index_err nxorder) (succ G nxnode))
        (\<lambda>nextnodes. Inr (if length nextnodes \<noteq> 0 then Max (set nextnodes)
                           else number_of_nodes G)))"

definition ispans :: "digraph \<Rightarrow> nat list \<Rightarrow> error + nat list" where
  "ispans G nxorder = map_err (span_of G nxorder) nxorder"

text \<open>
  The live lists (randomnet.py, lines 52-55; graph.py, lines 124-127):
  \<^verbatim>\<open>
    for order, nxnode in enumerate(nxorder):
        live[order] = [inode for inode, ispan in enumerate(ispans)
                       if ispan >= order and inode < order]
  \<close>
\<close>

definition live_at :: "nat list \<Rightarrow> nat \<Rightarrow> nat list" where
  "live_at spans order =
     map fst (filter (\<lambda>(inode, ispan). ispan \<ge> order \<and> inode < order) (enumerate 0 spans))"

definition live_lists :: "nat list \<Rightarrow> nat list \<Rightarrow> nat list list" where
  "live_lists nxorder spans = map (live_at spans) [0..<length nxorder]"

definition compute_liveness :: "digraph \<Rightarrow> nat list \<Rightarrow> error + nat list list" where
  "compute_liveness G nxorder =
     bind_err (ispans G nxorder) (\<lambda>spans. Inr (live_lists nxorder spans))"

text \<open>
  \<^verbatim>\<open>nlives = max([len(nodes) for nodes in live])\<close> (graph.py, line 136);
  \<^verbatim>\<open>max\<close> of an empty list raises \<^verbatim>\<open>ValueError\<close>.
\<close>

definition nlives :: "nat list list \<Rightarrow> error + nat" where
  "nlives live = (if live = [] then Inl ValueError else Inr (Max (set (map length live))))"

section \<open>Topological sorting (networkx)\<close>

text \<open>
  The sorting routines are library code of networkx; they are modelled after the
  library's algorithms. All three start from
  \<^verbatim>\<open>
    indegree_map = {v: d for v, d in G.in_degree() if d > 0}
    zero_indegree = [v for v, d in G.in_degree() if d == 0]
  \<close>
  and share the loop over the children of the node taken out:
  \<^verbatim>\<open>
    for _, child in G.edges(node):
        try:
            indegree_map[child] -= 1
        except KeyError:
            raise RuntimeError("Graph changed during iteration")
        if indegree_map[child] == 0:
            zero_indegree.append(child)      # heappush in the lexicographical variant
            del indegree_map[child]
  \<close>
  The dictionary \<^verbatim>\<open>indegree_map\<close> is an association list with integer values.
\<close>

definition indegree_map :: "digraph \<Rightarrow> (nat \<times> int) list" where
  "indegree_map G =
     map (\<lambda>v. (v, int (in_degree G v))) (filter (\<lambda>v. in_degree G v > 0) (nodes G))"

definition zero_indegree :: "digraph \<Rightarrow> nat list" where
  "zero_indegree G = filter (\<lambda>v. in_degree G v = 0) (nodes G)"

fun dec_children ::
  "nat list \<Rightarrow> (nat \<times> int) list \<times> nat list \<Rightarrow> error + ((nat \<times> int) list \<times> nat list)" where
  "dec_children [] st = Inr st"
| "dec_children (child # cs) (m, z) =
     (case map_of m child of
        None \<Rightarrow> Inl RuntimeError
      | Some d \<Rightarrow>
          if d - 1 = 0 then dec_children cs (AList.delete child m, z @ [child])
          else dec_children cs (AList.update child (d - 1) m, z))"

text \<open>The termination measure of the sorting loops: the positive in-degrees still stored.\<close>

definition weight :: "(nat \<times> int) list \<Rightarrow> nat" where
  "weight m = sum_list (map (\<lambda>p. nat (snd p)) m)"

lemma weight_delete: "weight (AList.delete k m) \<le> weight m"
  by (induction m) (auto simp: weight_def)

lemma weight_delete_Some:
  "map_of m k = Some d \<Longrightarrow> weight (AList.delete k m) + nat d \<le> weight m"
proof (induction m)
  case Nil
  then show ?case by simp
next
  case (Cons p m)
  show ?case
  proof (cases "fst p = k")
    case True
    with Cons.prems have "snd p = d" by (cases p) simp
    with True weight_delete [of k m] show ?thesis
      by (cases p) (simp add: weight_def)
  next
    case False
    with Cons show ?thesis by (cases p) (simp add: weight_def)
  qed
qed

lemma weight_update_Some:
  "map_of m k = Some d \<Longrightarrow> weight (AList.update k d' m) + nat d = weight m + nat d'"
proof (induction m)
  case Nil
  then show ?case by simp
next
  case (Cons p m)
  then show ?case by (cases p) (auto simp: weight_def)
qed

lemma dec_children_weight:
  "dec_children cs (m, z) = Inr (m', z') \<Longrightarrow> weight m' + length z' \<le> weight m + length z"
proof (induction cs arbitrary: m z)
  case Nil
  then show ?case by simp
next
  case (Cons c cs)
  from Cons.prems obtain d where d: "map_of m c = Some d"
    by (auto split: option.splits)
  show ?case
  proof (cases "d - 1 = 0")
    case True
    with Cons.prems d have "dec_children cs (AList.delete c m, z @ [c]) = Inr (m', z')"
      by simp
    from Cons.IH [OF this] weight_delete_Some [OF d] True show ?thesis by simp
  next
    case False
    with Cons.prems d have "dec_children cs (AList.update c (d - 1) m, z) = Inr (m', z')"
      by simp
    from Cons.IH [OF this] weight_update_Some [OF d, of "d - 1"] show ?thesis by simp
  qed
qed

text \<open>
  \<^verbatim>\<open>nx.lexicographical_topological_sort(G)\<close> (graph.py, line 114): the nodes of
  in-degree zero wait in a heap ordered by node id, and the smallest is taken out:
  \<^verbatim>\<open>
    while zero_indegree:
        _, _, node = heapq.heappop(zero_indegree)
        if node not in G:
            raise RuntimeError("Graph changed during iteration")
        ... the loop over the children ...
        yield node
    if indegree_map:
        raise nx.NetworkXUnfeasible("Graph contains a cycle ...")
  \<close>
\<close>

function lex_loop :: "digraph \<Rightarrow> (nat \<times> int) list \<Rightarrow> nat list \<Rightarrow> error + nat list" where
  "lex_loop G m h =
     (if h = [] then (if m \<noteq> [] then Inl NetworkXUnfeasible else Inr [])
      else if Min (set h) \<notin> set (nodes G) then Inl RuntimeError
      else (case dec_children (succ G (Min (set h))) (m, remove1 (Min (set h)) h) of
              Inl e \<Rightarrow> Inl e
            | Inr st \<Rightarrow> bind_err (lex_loop G (fst st) (snd st)) (\<lambda>rest. Inr (Min (set h) # rest))))"
  by pat_completeness auto
termination
proof (relation "measure (\<lambda>(G, m, h). weight m + length h)")
  show "wf (measure (\<lambda>(G, m, h). weight m + length h))" by simp
next
  fix G :: digraph and m :: "(nat \<times> int) list" and h :: "nat list" and st
  assume h: "h \<noteq> []"
    and st: "dec_children (succ G (Min (set h))) (m, remove1 (Min (set h)) h) = Inr st"
  have "Min (set h) \<in> set h" using h by simp
  then have len: "length (remove1 (Min (set h)) h) < length h"
    using h by (simp add: length_remove1)
  from st have "weight (fst st) + length (snd st) \<le> weight m + length (remove1 (Min (set h)) h)"
    using dec_children_weight
      [of "succ G (Min (set h))" m "remove1 (Min (set h)) h" "fst st" "snd st"] by simp
  with len show "((G, fst st, snd st), (G, m, h)) \<in> measure (\<lambda>(G, m, h). weight m + length h)"
    by (simp add: case_prod_beta)
qed

declare lex_loop.simps [simp del]

definition lexicographical_topological_sort :: "digraph \<Rightarrow> error + nat list" where
  "lexicographical_topological_sort G = lex_loop G (indegree_map G) (zero_indegree G)"

text \<open>
  \<^verbatim>\<open>nx.topological_sort(G)\<close> (randomnet.py, line 42). Up to networkx 2.5 the nodes
  of in-degree zero wait on a stack (\<^verbatim>\<open>node = zero_indegree.pop()\<close>):
\<close>

function stack_loop :: "digraph \<Rightarrow> (nat \<times> int) list \<Rightarrow> nat list \<Rightarrow> error + nat list" where
  "stack_loop G m z =
     (if z = [] then (if m \<noteq> [] then Inl NetworkXUnfeasible else Inr [])
      else if last z \<notin> set (nodes G) then Inl RuntimeError
      else (case dec_children (succ G (last z)) (m, butlast z) of
              Inl e \<Rightarrow> Inl e
            | Inr st \<Rightarrow> bind_err (stack_loop G (fst st) (snd st)) (\<lambda>rest. Inr (last z # rest))))"
  by pat_completeness auto
termination
proof (relation "measure (\<lambda>(G, m, z). weight m + length z)")
  show "wf (measure (\<lambda>(G, m, z). weight m + length z))" by simp
next
  fix G :: digraph and m :: "(nat \<times> int) list" and z :: "nat list" and st
  assume z: "z \<noteq> []"
    and st: "dec_children (succ G (last z)) (m, butlast z) = Inr st"
  from st have "weight (fst st) + length (snd st) \<le> weight m + length (butlast z)"
    using dec_children_weight [of "succ G (last z)" m "butlast z" "fst st" "snd st"] by simp
  with z show "((G, fst st, snd st), (G, m, z)) \<in> measure (\<lambda>(G, m, z). weight m + length z)"
    by (cases z rule: rev_cases) (simp_all add: case_prod_beta)
qed

declare stack_loop.simps [simp del]

definition topological_sort_stack :: "digraph \<Rightarrow> error + nat list" where
  "topological_sort_stack G = stack_loop G (indegree_map G) (zero_indegree G)"

text \<open>
  Since networkx 2.6 \<^verbatim>\<open>topological_sort\<close> yields the topological generations in turn:
  \<^verbatim>\<open>
    while zero_indegree:
        this_generation = zero_indegree
        zero_indegree = []
        for node in this_generation:
            if node not in G:
                raise RuntimeError("Graph changed during iteration")
            ... the loop over the children ...
        yield this_generation
    if indegree_map:
        raise nx.NetworkXUnfeasible("Graph contains a cycle ...")
  \<close>
\<close>

fun process_generation ::
  "digraph \<Rightarrow> nat list \<Rightarrow> (nat \<times> int) list \<times> nat list \<Rightarrow> error + ((nat \<times> int) list \<times> nat list)" where
  "process_generation G [] st = Inr st"
| "process_generation G (node # ns) st =
     (if node \<notin> set (nodes G) then Inl RuntimeError
      else bind_err (dec_children (succ G node) st) (process_generation G ns))"

lemma process_generation_weight:
  "process_generation G ns (m, z) = Inr (m', z') \<Longrightarrow> weight m' + length z' \<le> weight m + length z"
proof (induction ns arbitrary: m z)
  case Nil
  then show ?case by simp
next
  case (Cons n ns)
  from Cons.prems obtain m1 z1 where
    1: "dec_children (succ G n) (m, z) = Inr (m1, z1)" and
    2: "process_generation G ns (m1, z1) = Inr (m', z')"
    by (cases "dec_children (succ G n) (m, z)") (auto split: if_splits)
  from Cons.IH [OF 2] dec_children_weight [OF 1] show ?case by simp
qed

function generation_loop :: "digraph \<Rightarrow> (nat \<times> int) list \<Rightarrow> nat list \<Rightarrow> error + nat list" where
  "generation_loop G m z =
     (if z = [] then (if m \<noteq> [] then Inl NetworkXUnfeasible else Inr [])
      else (case process_generation G z (m, []) of
              Inl e \<Rightarrow> Inl e
            | Inr st \<Rightarrow> bind_err (generation_loop G (fst st) (snd st)) (\<lambda>rest. Inr (z @ rest))))"
  by pat_completeness auto
termination
proof (relation "measure (\<lambda>(G, m, z). 2 * weight m + (if z = [] then 0 else 1))")
  show "wf (measure (\<lambda>(G, m, z). 2 * weight m + (if z = [] then 0 else 1)))" by simp
next
  fix G :: digraph and m :: "(nat \<times> int) list" and z :: "nat list" and st
  assume z: "z \<noteq> []" and st: "process_generation G z (m, []) = Inr st"
  from st have "weight (fst st) + length (snd st) \<le> weight m"
    using process_generation_weight [of G z m "[]" "fst st" "snd st"] by simp
  with z show "((G, fst st, snd st), (G, m, z))
      \<in> measure (\<lambda>(G, m, z). 2 * weight m + (if z = [] then 0 else 1))"
    by (cases "snd st") (simp_all add: case_prod_beta)
qed

declare generation_loop.simps [simp del]

definition topological_sort :: "digraph \<Rightarrow> error + nat list" where
  "topological_sort G = generation_loop G (indegree_map G) (zero_indegree G)"

section \<open>The executor (randomnet.py)\<close>

text \<open>
  \<^verbatim>\<open>RandomNetwork\<close> keeps the graph, the node modules (one per node of
  \<^verbatim>\<open>G.nodes\<close>, in that order), the order and the live lists. A module maps the
  list of its input buffers to its output buffer; the modules are built by the external
  \<^verbatim>\<open>Node\<close> constructor from the top-layer flag and the in-degree.
\<close>

record 'b network =
  nxgraph :: digraph
  node_modules :: "('b list \<Rightarrow> 'b) list"
  nxorder :: "nat list"
  live :: "nat list list"

text \<open>
  \<^verbatim>\<open>__init__\<close> (randomnet.py, lines 19-55): \<open>init_with_order\<close> is the
  constructor from line 44 on, for a given order; \<open>RandomNetwork\<close> takes the order
  from \<^verbatim>\<open>nx.topological_sort\<close> as line 42 does.
\<close>

definition init_with_order ::
  "(bool \<Rightarrow> nat \<Rightarrow> ('b list \<Rightarrow> 'b)) \<Rightarrow> digraph \<Rightarrow> nat list \<Rightarrow> error + 'b network" where
  "init_with_order Node G order =
     bind_err (compute_liveness G order) (\<lambda>lv.
       Inr \<lparr>nxgraph = G,
            node_modules = map (\<lambda>n. Node (in_degree G n = 0) (in_degree G n)) (nodes G),
            nxorder = order,
            live = lv\<rparr>)"

definition RandomNetwork ::
  "(bool \<Rightarrow> nat \<Rightarrow> ('b list \<Rightarrow> 'b)) \<Rightarrow> digraph \<Rightarrow> error + 'b network" where
  "RandomNetwork Node G = bind_err (topological_sort G) (init_with_order Node G)"

text \<open>
  \<^verbatim>\<open>order is not len(self.nxorder) - 1\<close> compares object identity. CPython shares
  the integer objects from -5 to 256 only, so two equal integers computed separately are
  the same object exactly when they are at most 256.
\<close>

definition is_not :: "nat \<Rightarrow> nat \<Rightarrow> bool" where
  "is_not a b \<longleftrightarrow> a \<noteq> b \<or> 256 < a"

text \<open>
  The loop over the predecessors (randomnet.py, lines 78-85), returning \<^verbatim>\<open>y\<close> and
  \<^verbatim>\<open>to_delete\<close>:
  \<^verbatim>\<open>
    for p in self.pred[nxnode]:
        ipred = self.nxorder.index(p)
        iout = self.live[order].index(ipred)
        y.append(outs[iout])
        if order is not len(self.nxorder) - 1 and \
                ipred not in self.live[order + 1]:
            to_delete.append(iout)
  \<close>
\<close>

fun gather :: "'b network \<Rightarrow> nat \<Rightarrow> 'b list \<Rightarrow> nat list \<Rightarrow> error + ('b list \<times> nat list)" where
  "gather net order outs [] = Inr ([], [])"
| "gather net order outs (p # ps) =
     bind_err (index_err (nxorder net) p) (\<lambda>ipred.
     bind_err (nth_err (live net) order) (\<lambda>live_now.
     bind_err (index_err live_now ipred) (\<lambda>iout.
     bind_err (nth_err outs iout) (\<lambda>buf.
     bind_err (if is_not order (length (nxorder net) - 1)
               then bind_err (nth_err (live net) (order + 1)) (\<lambda>live_next.
                      Inr (ipred \<notin> set live_next))
               else Inr False) (\<lambda>del.
     bind_err (gather net order outs ps) (\<lambda>(y, to_delete).
       Inr (buf # y, (if del then [iout] else []) @ to_delete)))))))"

text \<open>\<^verbatim>\<open>for i in to_delete: del outs[i]\<close> (randomnet.py, lines 94-95).\<close>

fun delete_indices :: "nat list \<Rightarrow> 'b list \<Rightarrow> error + 'b list" where
  "delete_indices [] outs = Inr outs"
| "delete_indices (i # is) outs =
     (if i < length outs then delete_indices is (take i outs @ drop (Suc i) outs)
      else Inl IndexError)"

text \<open>
  One iteration of the traversal (randomnet.py, lines 72-96) at position \<open>order\<close>
  for node \<open>nxnode\<close>. A top-layer node gets the network input as its only input
  buffer (\<^verbatim>\<open>x.unsqueeze(-1)\<close>).
\<close>

definition forward_step :: "'b network \<Rightarrow> 'b \<Rightarrow> nat \<Rightarrow> nat \<Rightarrow> 'b list \<Rightarrow> error + 'b list" where
  "forward_step net x order nxnode outs =
     bind_err (nth_err (node_modules net) nxnode) (\<lambda>node.
     bind_err (if nxnode \<notin> set (nodes (nxgraph net)) then Inl KeyError
               else if in_degree (nxgraph net) nxnode = 0 then Inr (node [x], [])
               else bind_err (gather net order outs (pred (nxgraph net) nxnode))
                      (\<lambda>(y, to_delete). Inr (node y, to_delete))) (\<lambda>(out, to_delete).
     bind_err (if length to_delete \<noteq> 0 then delete_indices (rev (sort to_delete)) outs
               else Inr outs) (\<lambda>outs'.
       Inr (outs' @ [out]))))"

fun forward_loop :: "'b network \<Rightarrow> 'b \<Rightarrow> (nat \<times> nat) list \<Rightarrow> 'b list \<Rightarrow> error + 'b list" where
  "forward_loop net x [] outs = Inr outs"
| "forward_loop net x ((order, nxnode) # rest) outs =
     bind_err (forward_step net x order nxnode outs) (forward_loop net x rest)"

text \<open>
  \<open>outs_after net x k\<close> is the buffer list \<^verbatim>\<open>outs\<close> after the first \<open>k\<close>
  iterations, that is, at the start of step \<open>k\<close>.
\<close>

definition outs_after :: "'b network \<Rightarrow> 'b \<Rightarrow> nat \<Rightarrow> error + 'b list" where
  "outs_after net x k = forward_loop net x (take k (enumerate 0 (nxorder net))) []"

text \<open>
  \<^verbatim>\<open>forward\<close> (randomnet.py, lines 69-102). The aggregation
  \<^verbatim>\<open>torch.mean(torch.stack(outs), 0)\<close> is the parameter \<open>mean\<close>;
  \<^verbatim>\<open>torch.stack\<close> raises \<^verbatim>\<open>RuntimeError\<close> on an empty list.
\<close>

definition forward :: "('b list \<Rightarrow> 'b) \<Rightarrow> 'b network \<Rightarrow> 'b \<Rightarrow> error + 'b" where
  "forward mean net x =
     bind_err (forward_loop net x (enumerate 0 (nxorder net)) []) (\<lambda>outs.
       if outs = [] then Inl RuntimeError else Inr (mean outs))"

text \<open>
  The buffer produced at position \<open>p\<close>: the element \<^verbatim>\<open>outs.append(out)\<close> puts
  last in iteration \<open>p\<close>.
\<close>

definition buffer_at :: "'b network \<Rightarrow> 'b \<Rightarrow> nat \<Rightarrow> 'b option" where
  "buffer_at net x p =
     (case outs_after net x (Suc p) of Inl e \<Rightarrow> None | Inr outs \<Rightarrow> Some (last outs))"

section \<open>Graph generation (graph.py)\<close>

subsection \<open>Undirected graphs and the conversion to a directed graph\<close>

text \<open>
  A \<^verbatim>\<open>networkx.Graph\<close>: its nodes and the edges in the order \<^verbatim>\<open>add_edge\<close> put
  them in. Adding the edge \<open>(u, v)\<close> enters \<open>v\<close> among the neighbours of \<open>u\<close> and
  \<open>u\<close> among those of \<open>v\<close>; a neighbour dictionary keeps each key once, at its first
  position.
\<close>

record ugraph =
  unodes :: "nat list"
  uedges :: "(nat \<times> nat) list"

definition insert_key :: "'a \<Rightarrow> 'a list \<Rightarrow> 'a list" where
  "insert_key k ks = (if k \<in> set ks then ks else ks @ [k])"

definition adj :: "ugraph \<Rightarrow> nat \<Rightarrow> nat list" where
  "adj G n =
     fold insert_key
       (concat (map (\<lambda>e. (if fst e = n then [snd e] else []) @ (if snd e = n then [fst e] else []))
          (uedges G))) []"

definition wf_ugraph :: "ugraph \<Rightarrow> bool" where
  "wf_ugraph G \<longleftrightarrow>
     distinct (unodes G) \<and>
     list_all (\<lambda>e. fst e \<in> set (unodes G) \<and> snd e \<in> set (unodes G)) (uedges G)"

text \<open>
  \<^verbatim>\<open>nx.DiGraph(G)\<close> copies the nodes and adds, for every node \<open>u\<close> and every
  neighbour \<open>v\<close> of \<open>u\<close>, the edge \<open>(u, v)\<close>: both directions of every undirected edge.
\<close>

definition DiGraph :: "ugraph \<Rightarrow> digraph" where
  "DiGraph G = \<lparr>nodes = unodes G, edges = concat (map (\<lambda>u. map (Pair u) (adj G u)) (unodes G))\<rparr>"

text \<open>Iterating \<^verbatim>\<open>G.edges\<close> of a directed graph: node by node, successor by successor.\<close>

definition edge_list :: "digraph \<Rightarrow> (nat \<times> nat) list" where
  "edge_list D = concat (map (\<lambda>n. map (Pair n) (succ D n)) (nodes D))"

definition remove_edges_from :: "(nat \<times> nat) list \<Rightarrow> digraph \<Rightarrow> digraph" where
  "remove_edges_from ebunch D = D\<lparr>edges := filter (\<lambda>e. e \<notin> set ebunch) (edges D)\<rparr>"

text \<open>
  The conversion of \<^verbatim>\<open>generate\<close> (graph.py, lines 50-56):
  \<^verbatim>\<open>
    G = nx.DiGraph(G)
    ebunch = []
    for e in G.edges:
        if e[0] >= e[1]:
            ebunch.append(e)
    G.remove_edges_from(ebunch)
  \<close>
\<close>

definition to_dag :: "ugraph \<Rightarrow> digraph" where
  "to_dag G =
     (let D = DiGraph G;
          ebunch = filter (\<lambda>e. fst e \<ge> snd e) (edge_list D)
      in remove_edges_from ebunch D)"

subsection \<open>Connectivity\<close>

text \<open>
  \<^verbatim>\<open>nx.is_connected(G)\<close> raises \<^verbatim>\<open>NetworkXPointlessConcept\<close> on the null graph
  and otherwise counts the nodes a breadth-first search reaches from the first node. The
  search is modelled by closing the set of seen nodes under neighbours once per node of
  the graph, which is as far as a breadth-first search can get.
\<close>

fun bfs_closure :: "ugraph \<Rightarrow> nat \<Rightarrow> nat list \<Rightarrow> nat list" where
  "bfs_closure G 0 seen = seen"
| "bfs_closure G (Suc k) seen =
     bfs_closure G k (fold insert_key (concat (map (adj G) seen)) seen)"

definition is_connected :: "ugraph \<Rightarrow> error + bool" where
  "is_connected G =
     (if unodes G = [] then Inl NetworkXPointlessConcept
      else Inr (length (bfs_closure G (length (unodes G)) [hd (unodes G)]) = length (unodes G)))"

subsection \<open>The generator\<close>

text \<open>
  The parameter dictionary has the capital keys \<^verbatim>\<open>'P'\<close>, \<^verbatim>\<open>'M'\<close> and
  \<^verbatim>\<open>'K'\<close>; a key that is absent is \<open>None\<close>.
\<close>

record params =
  param_P :: "real option"
  param_M :: "int option"
  param_K :: "int option"

record generator =
  model :: string
  gparams :: params
  directed :: bool

text \<open>\<^verbatim>\<open>GraphGenerator.__init__\<close> (graph.py, lines 16-30).\<close>

definition GraphGenerator :: "string \<Rightarrow> params \<Rightarrow> bool \<Rightarrow> error + generator" where
  "GraphGenerator mdl ps dir =
     (let gen = \<lparr>model = mdl, gparams = ps, directed = dir\<rparr> in
      if mdl = ''ER'' then
        (case param_P ps of
           None \<Rightarrow> Inl AssertionError
         | Some p \<Rightarrow> if p \<le> 1 \<and> p \<ge> 0 then Inr gen else Inl AssertionError)
      else if mdl = ''BA'' then
        (case param_M ps of None \<Rightarrow> Inl AssertionError | Some m \<Rightarrow> Inr gen)
      else if mdl = ''WS'' then
        (case (param_K ps, param_P ps) of
           (Some k, Some p) \<Rightarrow>
             if k mod 2 \<noteq> 0 then Inl AssertionError
             else if p \<le> 1 \<and> p \<ge> 0 then Inr gen else Inl AssertionError
         | _ \<Rightarrow> Inl AssertionError)
      else Inl NotImplementedError)"

text \<open>
  The random graph models are library code of networkx, and their randomness is external:
  they are parameters. A library call takes the state of the random number generator it
  draws from and returns the new state. With \<^verbatim>\<open>seed=None\<close> the call draws from
  the global generator; with an integer seed it draws from a fresh generator
  \<^verbatim>\<open>random.Random(seed)\<close> and leaves the global one alone.
\<close>

record 'r nxlib =
  seeded :: "int \<Rightarrow> 'r"
  erdos_renyi_graph :: "int \<Rightarrow> real \<Rightarrow> 'r \<Rightarrow> (error + ugraph) \<times> 'r"
  barabasi_albert_graph :: "int \<Rightarrow> int \<Rightarrow> 'r \<Rightarrow> (error + ugraph) \<times> 'r"
  watts_strogatz_graph :: "int \<Rightarrow> int \<Rightarrow> real \<Rightarrow> 'r \<Rightarrow> (error + ugraph) \<times> 'r"

definition call_seeded :: "'r nxlib \<Rightarrow> int option \<Rightarrow> ('r \<Rightarrow> 'a \<times> 'r) \<Rightarrow> 'r \<Rightarrow> 'a \<times> 'r" where
  "call_seeded lib seed f g =
     (case seed of None \<Rightarrow> f g | Some s \<Rightarrow> (fst (f (seeded lib s)), g))"

text \<open>
  The rejection loop of the ER model (graph.py, lines 36-39):
  \<^verbatim>\<open>
    while True:
        G = nx.erdos_renyi_graph(nnode, self.params['P'], seed=seed)
        if nx.is_connected(G):
            break
  \<close>
  The loop has no exit but the \<^verbatim>\<open>break\<close>: not returning is the value \<open>None\<close>.
\<close>

partial_function (option) er_loop ::
  "'r nxlib \<Rightarrow> int \<Rightarrow> real \<Rightarrow> int option \<Rightarrow> 'r \<Rightarrow> (error + ugraph \<times> 'r) option" where
  "er_loop lib nnode p seed g =
     (case call_seeded lib seed (erdos_renyi_graph lib nnode p) g of
        (Inl e, g') \<Rightarrow> Some (Inl e)
      | (Inr G, g') \<Rightarrow>
          (case is_connected G of
             Inl e \<Rightarrow> Some (Inl e)
           | Inr c \<Rightarrow> if c then Some (Inr (G, g')) else er_loop lib nnode p seed g'))"

text \<open>What \<^verbatim>\<open>generate\<close> returns: the undirected graph, or the directed one.\<close>

datatype any_graph = Undirected ugraph | Directed digraph

text \<open>\<^verbatim>\<open>GraphGenerator.generate\<close> (graph.py, lines 32-58).\<close>

definition undirected_draw ::
  "'r nxlib \<Rightarrow> generator \<Rightarrow> int \<Rightarrow> int option \<Rightarrow> 'r \<Rightarrow> (error + ugraph \<times> 'r) option" where
  "undirected_draw lib gen nnode seed g =
     (if model gen = ''ER'' then
        (case param_P (gparams gen) of
           None \<Rightarrow> Some (Inl KeyError)
         | Some p \<Rightarrow> er_loop lib nnode p seed g)
      else if model gen = ''BA'' then
        (case param_M (gparams gen) of
           None \<Rightarrow> Some (Inl KeyError)
         | Some m \<Rightarrow>
             if \<not> m < nnode then Some (Inl AssertionError)
             else (case call_seeded lib seed (barabasi_albert_graph lib nnode m) g of
                     (r, g') \<Rightarrow> Some (bind_err r (\<lambda>G. Inr (G, g')))))
      else if model gen = ''WS'' then
        (case param_K (gparams gen) of
           None \<Rightarrow> Some (Inl KeyError)
         | Some k \<Rightarrow>
             if \<not> k < nnode then Some (Inl AssertionError)
             else (case param_P (gparams gen) of
                     None \<Rightarrow> Some (Inl KeyError)
                   | Some p \<Rightarrow>
                       (case call_seeded lib seed (watts_strogatz_graph lib nnode k p) g of
                          (r, g') \<Rightarrow> Some (bind_err r (\<lambda>G. Inr (G, g'))))))
      else Some (Inl NotImplementedError))"

definition generate ::
  "'r nxlib \<Rightarrow> generator \<Rightarrow> int \<Rightarrow> int option \<Rightarrow> 'r \<Rightarrow> (error + any_graph \<times> 'r) option" where
  "generate lib gen nnode seed g =
     (case undirected_draw lib gen nnode seed g of
        None \<Rightarrow> None
      | Some (Inl e) \<Rightarrow> Some (Inl e)
      | Some (Inr (G, g')) \<Rightarrow>
          Some (Inr (if directed gen then Directed (to_dag G) else Undirected G, g')))"

subsection \<open>Batches\<close>

text \<open>
  \<^verbatim>\<open>get_graphs\<close> (graph.py, lines 61-91). \<^verbatim>\<open>nnodes\<close> is an integer or a list,
  \<^verbatim>\<open>seeds\<close> is \<^verbatim>\<open>None\<close>, an integer or a list:
  \<^verbatim>\<open>
    if isinstance(nnodes, int):
        nnodes = [nnodes,] * ngraphs
    if seeds is None:
        seeds = [None,] * ngraphs
    elif isinstance(seeds, int):
        seeds = [s for s in range(seeds, seeds + ngraphs - 1)]
    gen = GraphGenerator(model, params, directed=True)
    Gs = []
    for i in range(ngraphs):
        Gs.append(gen.generate(nnodes[i], seed=seeds[i]))
    return Gs
  \<close>
\<close>

datatype nnodes_arg = NodeCount int | NodeCounts "int list"

datatype seeds_arg = NoSeeds | SeedInt int | SeedList "int option list"

definition nnodes_list :: "int \<Rightarrow> nnodes_arg \<Rightarrow> int list" where
  "nnodes_list ngraphs nnodes =
     (case nnodes of NodeCount n \<Rightarrow> replicate (nat ngraphs) n | NodeCounts ns \<Rightarrow> ns)"

definition seeds_list :: "int \<Rightarrow> seeds_arg \<Rightarrow> int option list" where
  "seeds_list ngraphs seeds =
     (case seeds of
        NoSeeds \<Rightarrow> replicate (nat ngraphs) None
      | SeedInt s \<Rightarrow> map Some [s..s + ngraphs - 1 - 1]
      | SeedList ss \<Rightarrow> ss)"

fun get_graphs_loop ::
  "'r nxlib \<Rightarrow> generator \<Rightarrow> int list \<Rightarrow> int option list \<Rightarrow> nat list \<Rightarrow> 'r
     \<Rightarrow> (error + any_graph list \<times> 'r) option" where
  "get_graphs_loop lib gen nnodes seeds [] g = Some (Inr ([], g))"
| "get_graphs_loop lib gen nnodes seeds (i # is) g =
     (case nth_err nnodes i of
        Inl e \<Rightarrow> Some (Inl e)
      | Inr n \<Rightarrow>
          (case nth_err seeds i of
             Inl e \<Rightarrow> Some (Inl e)
           | Inr seed \<Rightarrow>
               (case generate lib gen n seed g of
                  None \<Rightarrow> None
                | Some (Inl e) \<Rightarrow> Some (Inl e)
                | Some (Inr (G, g')) \<Rightarrow>
                    (case get_graphs_loop lib gen nnodes seeds is g' of
                       None \<Rightarrow> None
                     | Some (Inl e) \<Rightarrow> Some (Inl e)
                     | Some (Inr (Gs, g'')) \<Rightarrow> Some (Inr (G # Gs, g''))))))"

definition get_graphs ::
  "'r nxlib \<Rightarrow> string \<Rightarrow> params \<Rightarrow> int \<Rightarrow> nnodes_arg \<Rightarrow> seeds_arg \<Rightarrow> 'r
     \<Rightarrow> (error + any_graph list \<times> 'r) option" where
  "get_graphs lib mdl ps ngraphs nnodes seeds g =
     (case GraphGenerator mdl ps True of
        Inl e \<Rightarrow> Some (Inl e)
      | Inr gen \<Rightarrow>
          get_graphs_loop lib gen (nnodes_list ngraphs nnodes) (seeds_list ngraphs seeds)
            [0..<nat ngraphs] g)"

section \<open>The reordering search (graph.py, test)\<close>

text \<open>
  \<^verbatim>\<open>nx.relabel_nodes(G, mapping)\<close> with the mapping
  \<^verbatim>\<open>{i: new_order[i] for i in range(len(G.nodes))}\<close> (graph.py, lines 131-133): the
  copy gets the renamed nodes in the order of \<^verbatim>\<open>G.nodes\<close> and the renamed edges in
  the order of \<^verbatim>\<open>G.edges\<close>; a node that is no key of the mapping keeps its name.
\<close>

definition relabel_nodes :: "digraph \<Rightarrow> nat list \<Rightarrow> error + digraph" where
  "relabel_nodes G new_order =
     bind_err (map_err (nth_err new_order) [0..<length (nodes G)]) (\<lambda>mapping.
       let f = (\<lambda>n. if n < length mapping then mapping ! n else n) in
       Inr \<lparr>nodes = map f (nodes G), edges = map (\<lambda>e. (f (fst e), f (snd e))) (edge_list G)\<rparr>)"

text \<open>
  The search loop of \<^verbatim>\<open>test\<close> (graph.py, lines 106-140); the permutations
  \<^verbatim>\<open>np.random.permutation\<close> draws are the parameter, one per trial:
  \<^verbatim>\<open>
    min_lives = len(G.nodes)
    Gopt = None
    for i in range(num_reorder):
        nxorder = [n for n in nx.lexicographical_topological_sort(G)]
        ... ispans, live ...
        new_order = np.random.permutation(len(G.nodes))
        mapping = {i: new_order[i] for i in range(len(G.nodes))}
        G = nx.relabel_nodes(G, mapping)
        nlives = max([len(nodes) for nodes in live])
        if nlives < min_lives:
            min_lives = nlives
            Gopt = G
  \<close>
\<close>

fun search_loop ::
  "nat list list \<Rightarrow> digraph \<Rightarrow> nat \<Rightarrow> digraph option \<Rightarrow> error + (digraph option \<times> nat)" where
  "search_loop [] G min_lives Gopt = Inr (Gopt, min_lives)"
| "search_loop (new_order # rest) G min_lives Gopt =
     bind_err (lexicographical_topological_sort G) (\<lambda>nxorder.
     bind_err (compute_liveness G nxorder) (\<lambda>lv.
     bind_err (relabel_nodes G new_order) (\<lambda>G'.
     bind_err (nlives lv) (\<lambda>n.
       if n < min_lives then search_loop rest G' n (Some G')
       else search_loop rest G' min_lives Gopt))))"

definition search :: "digraph \<Rightarrow> nat list list \<Rightarrow> error + (digraph option \<times> nat)" where
  "search G perms = search_loop perms G (length (nodes G)) None"

text \<open>The peak live-count of a graph under the order of a sorting routine.\<close>

definition peak_of :: "(digraph \<Rightarrow> error + nat list) \<Rightarrow> digraph \<Rightarrow> error + nat" where
  "peak_of sorter G =
     bind_err (sorter G) (\<lambda>nxorder. bind_err (compute_liveness G nxorder) nlives)"

definition live_counts :: "(digraph \<Rightarrow> error + nat list) \<Rightarrow> digraph \<Rightarrow> error + nat list" where
  "live_counts sorter G =
     bind_err (sorter G) (\<lambda>nxorder.
       bind_err (compute_liveness G nxorder) (\<lambda>lv. Inr (map length lv)))"

section \<open>Example graphs\<close>

definition star :: digraph where
  "star = \<lparr>nodes = [0, 1, 2, 3, 4], edges = [(0, 1), (0, 2), (0, 3), (0, 4)]\<rparr>"

definition chain2 :: digraph where
  "chain2 = \<lparr>nodes = [0, 1], edges = [(0, 1)]\<rparr>"

definition zigzag :: digraph where
  "zigzag = \<lparr>nodes = [0, 1, 2, 3], edges = [(0, 1), (1, 3), (2, 3)]\<rparr>"

definition fork :: digraph where
  "fork = \<lparr>nodes = [0, 1, 2, 3], edges = [(0, 2), (0, 3), (1, 2)]\<rparr>"

definition triangle :: ugraph where
  "triangle = \<lparr>unodes = [0, 1, 2], uedges = [(1, 0), (2, 1), (0, 2)]\<rparr>"

section \<open>The attempts of the rejection loop\<close>

text \<open>
  For the statements about the rejection loop: the state of the global random number
  generator before the \<open>i\<close>-th iteration, and the outcome of the draw in that
  iteration. A draw is rejected when it is a graph that is not connected.
\<close>

definition attempt_state :: "'r nxlib \<Rightarrow> int \<Rightarrow> real \<Rightarrow> int option \<Rightarrow> 'r \<Rightarrow> nat \<Rightarrow> 'r" where
  "attempt_state lib nnode p seed g i =
     ((\<lambda>g. snd (call_seeded lib seed (erdos_renyi_graph lib nnode p) g)) ^^ i) g"

definition attempt :: "'r nxlib \<Rightarrow> int \<Rightarrow> real \<Rightarrow> int option \<Rightarrow> 'r \<Rightarrow> nat \<Rightarrow> error + ugraph" where
  "attempt lib nnode p seed g i =
     fst (call_seeded lib seed (erdos_renyi_graph lib nnode p) (attempt_state lib nnode p seed g i))"

definition rejected :: "error + ugraph \<Rightarrow> bool" where
  "rejected r = (case r of Inl e \<Rightarrow> False | Inr G \<Rightarrow> is_connected G = Inr False)"

section \<open>Example random sources\<close>

text \<open>
  Two random sources whose generator state counts the draws. \<open>edgeless_lib\<close> draws
  the graph without edges every time, as the ER model does at \<^verbatim>\<open>P = 0\<close>;
  \<open>late_lib\<close> draws it while the state is below 2 and the complete graph \<open>K2\<close> on
  two nodes from then on. A seed \<open>s\<close> starts the generator in state \<open>nat s\<close>.
\<close>

definition K2 :: ugraph where
  "K2 = \<lparr>unodes = [0, 1], uedges = [(0, 1)]\<rparr>"

definition edgeless :: "int \<Rightarrow> ugraph" where
  "edgeless n = \<lparr>unodes = [0..<nat n], uedges = []\<rparr>"

definition edgeless_lib :: "nat nxlib" where
  "edgeless_lib =
     \<lparr>seeded = nat,
      erdos_renyi_graph = (\<lambda>n p g. (Inr (edgeless n), Suc g)),
      barabasi_albert_graph = (\<lambda>n m g. (Inr (edgeless n), Suc g)),
      watts_strogatz_graph = (\<lambda>n k p g. (Inr (edgeless n), Suc g))\<rparr>"

definition late_lib :: "nat nxlib" where
  "late_lib =
     \<lparr>seeded = nat,
      erdos_renyi_graph =
        (\<lambda>n p g. (Inr (if g < 2 then edgeless 2 else K2), Suc g)),
      barabasi_albert_graph = (\<lambda>n m g. (Inr (edgeless n), Suc g)),
      watts_strogatz_graph = (\<lambda>n k p g. (Inr (edgeless n), Suc g))\<rparr>"

definition er_generator :: generator where
  "er_generator =
     \<lparr>model = ''ER'', gparams = \<lparr>param_P = Some 0, param_M = None, param_K = None\<rparr>,
      directed = True\<rparr>"

section \<open>Notions for the statements about topological orders\<close>

text \<open>The position of an element of a list (the length when it is absent).\<close>

definition pos :: "'a list \<Rightarrow> 'a \<Rightarrow> nat" where
  "pos xs x = (case list_index xs x of None \<Rightarrow> length xs | Some i \<Rightarrow> i)"

text \<open>The lexicographic order on lists of node identifiers.\<close>

fun lex_less :: "nat list \<Rightarrow> nat list \<Rightarrow> bool" where
  "lex_less xs [] = False"
| "lex_less [] (y # ys) = True"
| "lex_less (x # xs) (y # ys) = (x < y \<or> (x = y \<and> lex_less xs ys))"

definition lex_le :: "nat list \<Rightarrow> nat list \<Rightarrow> bool" where
  "lex_le xs ys \<longleftrightarrow> xs = ys \<or> lex_less xs ys"

text \<open>
  \<open>valid_from G D t\<close>: the list \<open>t\<close> continues a topological order whose nodes so far
  are \<open>D\<close>. \<open>remaining G D v\<close> counts the predecessors of \<open>v\<close> outside \<open>D\<close>.
\<close>

fun valid_from :: "digraph \<Rightarrow> nat set \<Rightarrow> nat list \<Rightarrow> bool" where
  "valid_from G D [] \<longleftrightarrow> set (nodes G) \<subseteq> D"
| "valid_from G D (x # xs) \<longleftrightarrow>
     x \<in> set (nodes G) \<and> x \<notin> D \<and> set (pred G x) \<subseteq> D \<and> valid_from G (insert x D) xs"

definition remaining :: "digraph \<Rightarrow> nat set \<Rightarrow> nat \<Rightarrow> nat" where
  "remaining G D v = length (filter (\<lambda>u. u \<notin> D) (pred G v))"

text \<open>
  The state of a sorting loop agrees with the counts \<open>c\<close> on the nodes \<open>U\<close> not yet
  taken out: the waiting nodes are those of count zero, and the dictionary holds the
  positive counts.
\<close>

definition agrees :: "(nat \<Rightarrow> nat) \<Rightarrow> nat set \<Rightarrow> (nat \<times> int) list \<Rightarrow> nat list \<Rightarrow> bool" where
  "agrees c U m h \<longleftrightarrow>
     distinct (map fst m) \<and> distinct h \<and>
     (\<forall>v. v \<in> set h \<longleftrightarrow> v \<in> U \<and> c v = 0) \<and>
     (\<forall>v d. map_of m v = Some d \<longleftrightarrow> v \<in> U \<and> 0 < c v \<and> d = int (c v))"

text \<open>A node module for examples: buffers are numbers, a node adds its inputs up.\<close>

definition sum_node :: "bool \<Rightarrow> nat \<Rightarrow> nat list \<Rightarrow> nat" where
  "sum_node is_top indeg ys = Suc (sum_list ys)"

text \<open>The network of the graph \<open>zigzag\<close> under the order \<open>[0, 2, 1, 3]\<close>.\<close>

definition zigzag_net :: "nat network" where
  "zigzag_net =
     \<lparr>nxgraph = zigzag,
      node_modules = map (\<lambda>n. sum_node (in_degree zigzag n = 0) (in_degree zigzag n)) (nodes zigzag),
      nxorder = [0, 2, 1, 3],
      live = [[], [0], [0, 1], [1, 2]]\<rparr>"

section \<open>Basic facts about the list primitives\<close>

lemma map_err_Inr:
  "(\<And>x. x \<in> set xs \<Longrightarrow> f x = Inr (g x)) \<Longrightarrow> map_err f xs = Inr (map g xs)"
  by (induction xs) simp_all

lemma list_index_None: "list_index xs x = None \<longleftrightarrow> x \<notin> set xs"
  by (induction xs) auto

lemma list_index_nth: "list_index xs x = Some i \<Longrightarrow> i < length xs \<and> xs ! i = x"
  by (induction xs arbitrary: i) (auto split: if_splits)

lemma list_index_distinct:
  "distinct xs \<Longrightarrow> i < length xs \<Longrightarrow> list_index xs (xs ! i) = Some i"
proof (induction xs arbitrary: i)
  case Nil
  then show ?case by simp
next
  case (Cons y ys)
  then show ?case by (cases i) auto
qed

lemma pos_less: "x \<in> set xs \<Longrightarrow> pos xs x < length xs"
  using list_index_nth [of xs x] list_index_None [of xs x]
  by (cases "list_index xs x") (auto simp: pos_def)

lemma nth_pos: "x \<in> set xs \<Longrightarrow> xs ! pos xs x = x"
  using list_index_nth [of xs x] list_index_None [of xs x]
  by (cases "list_index xs x") (auto simp: pos_def)

lemma pos_nth: "distinct xs \<Longrightarrow> i < length xs \<Longrightarrow> pos xs (xs ! i) = i"
  by (simp add: pos_def list_index_distinct)

lemma index_err_pos: "x \<in> set xs \<Longrightarrow> index_err xs x = Inr (pos xs x)"
  using list_index_None [of xs x]
  by (cases "list_index xs x") (auto simp: pos_def index_err_def)

lemma succ_in_nodes: "wf_digraph G \<Longrightarrow> v \<in> set (succ G n) \<Longrightarrow> v \<in> set (nodes G)"
  by (auto simp: wf_digraph_def succ_def list_all_iff)

lemma pred_in_nodes: "wf_digraph G \<Longrightarrow> u \<in> set (pred G n) \<Longrightarrow> u \<in> set (nodes G)"
  by (auto simp: wf_digraph_def pred_def list_all_iff)

section \<open>Spans\<close>

lemma span_of_eq:
  assumes "wf_digraph G" "set order = set (nodes G)" "n \<in> set (nodes G)"
  shows "span_of G order n =
    Inr (if succ G n \<noteq> [] then Max (pos order ` set (succ G n)) else number_of_nodes G)"
proof -
  have "map_err (index_err order) (succ G n) = Inr (map (pos order) (succ G n))"
    using assms succ_in_nodes [OF assms(1)] by (intro map_err_Inr index_err_pos) auto
  with assms(3) show ?thesis by (simp add: span_of_def)
qed

lemma ispans_eq:
  assumes "wf_digraph G" "set order = set (nodes G)"
  shows "ispans G order =
    Inr (map (\<lambda>n. if succ G n \<noteq> [] then Max (pos order ` set (succ G n))
                   else number_of_nodes G) order)"
  unfolding ispans_def using assms by (intro map_err_Inr span_of_eq) auto

text \<open>
  Claim C5, as the code has it. For every well-formed graph and every order that is a
  permutation of its nodes, the span loop succeeds with one span per position. The span
  of a node with a successor is the position of its last successor in the order: it is
  a position of the order, the node there is a successor, and no successor stands
  later. The span of a node of out-degree zero is the number of nodes, one past the
  final position (not the final position itself).
\<close>

theorem ispans_spec:
  assumes "wf_digraph G" "distinct order" "set order = set (nodes G)"
  shows "\<exists>spans. ispans G order = Inr spans \<and> length spans = length order \<and>
    (\<forall>i<length order.
       (0 < out_degree G (order ! i) \<longrightarrow>
          spans ! i < length order \<and> order ! (spans ! i) \<in> set (succ G (order ! i)) \<and>
          (\<forall>j<length order. order ! j \<in> set (succ G (order ! i)) \<longrightarrow> j \<le> spans ! i)) \<and>
       (out_degree G (order ! i) = 0 \<longrightarrow> spans ! i = number_of_nodes G))"
proof -
  let ?f = "\<lambda>n. if succ G n \<noteq> [] then Max (pos order ` set (succ G n)) else number_of_nodes G"
  have eq: "ispans G order = Inr (map ?f order)"
    using assms by (intro ispans_eq)
  have "\<forall>i<length order.
       (0 < out_degree G (order ! i) \<longrightarrow>
          map ?f order ! i < length order \<and>
          order ! (map ?f order ! i) \<in> set (succ G (order ! i)) \<and>
          (\<forall>j<length order. order ! j \<in> set (succ G (order ! i)) \<longrightarrow> j \<le> map ?f order ! i)) \<and>
       (out_degree G (order ! i) = 0 \<longrightarrow> map ?f order ! i = number_of_nodes G)"
  proof (intro allI impI conjI)
    fix i assume i: "i < length order" and out: "0 < out_degree G (order ! i)"
    let ?S = "pos order ` set (succ G (order ! i))"
    from out have ne: "succ G (order ! i) \<noteq> []" by (auto simp: out_degree_def)
    then have fi: "map ?f order ! i = Max ?S" using i by simp
    have "Max ?S \<in> ?S" using ne by (intro Max_in) auto
    then obtain s where s: "s \<in> set (succ G (order ! i))" "Max ?S = pos order s" by auto
    from s(1) have sin: "s \<in> set order" using succ_in_nodes [OF assms(1)] assms(3) by auto
    show "map ?f order ! i < length order" using fi s(2) pos_less [OF sin] by simp
    show "order ! (map ?f order ! i) \<in> set (succ G (order ! i))"
      using fi s nth_pos [OF sin] by simp
    fix j assume j: "j < length order" and mem: "order ! j \<in> set (succ G (order ! i))"
    have "pos order (order ! j) \<le> Max ?S" using mem by (intro Max_ge) auto
    then show "j \<le> map ?f order ! i" using fi pos_nth [OF assms(2) j] by simp
  next
    fix i assume "i < length order" "out_degree G (order ! i) = 0"
    then show "map ?f order ! i = number_of_nodes G" by (simp add: out_degree_def)
  qed
  with eq show ?thesis by (intro exI [of _ "map ?f order"]) simp
qed

theorem ispans_spec_witness:
  "wf_digraph star \<and> distinct [0, 1, 2, 3, 4 :: nat] \<and> set [0, 1, 2, 3, 4] = set (nodes star) \<and>
   (\<exists>spans. ispans star [0, 1, 2, 3, 4] = Inr spans \<and> length spans = 5 \<and>
      spans ! 0 < 5 \<and> [0, 1, 2, 3, 4] ! (spans ! 0) \<in> set (succ star 0) \<and>
      spans ! 1 = number_of_nodes star)"
proof -
  have wf: "wf_digraph star" by (simp add: wf_digraph_def star_def)
  have d: "distinct [0, 1, 2, 3, 4 :: nat]" by simp
  have s: "set [0, 1, 2, 3, 4] = set (nodes star)" by (simp add: star_def)
  have o0: "0 < out_degree star ([0, 1, 2, 3, 4] ! 0)"
    by (simp add: out_degree_def succ_def star_def)
  have o1: "out_degree star ([0, 1, 2, 3, 4] ! 1) = 0"
    by (simp add: out_degree_def succ_def star_def)
  from ispans_spec [OF wf d s] obtain spans where
    1: "ispans star [0, 1, 2, 3, 4] = Inr spans" and
    2: "length spans = length [0, 1, 2, 3, 4 :: nat]" and
    3: "\<forall>i<length [0, 1, 2, 3, 4 :: nat].
       (0 < out_degree star ([0, 1, 2, 3, 4] ! i) \<longrightarrow>
          spans ! i < length [0, 1, 2, 3, 4 :: nat] \<and>
          [0, 1, 2, 3, 4] ! (spans ! i) \<in> set (succ star ([0, 1, 2, 3, 4] ! i)) \<and>
          (\<forall>j<length [0, 1, 2, 3, 4 :: nat].
             [0, 1, 2, 3, 4] ! j \<in> set (succ star ([0, 1, 2, 3, 4] ! i)) \<longrightarrow> j \<le> spans ! i)) \<and>
       (out_degree star ([0, 1, 2, 3, 4] ! i) = 0 \<longrightarrow> spans ! i = number_of_nodes star)"
    by blast
  from 3 o0 have a: "spans ! 0 < 5 \<and> [0, 1, 2, 3, 4] ! (spans ! 0) \<in> set (succ star 0)"
    by force
  have "(1::nat) < length [0, 1, 2, 3, 4 :: nat]" by simp
  with 3 o1 have b: "spans ! 1 = number_of_nodes star" by blast
  from wf d s 1 2 a b show ?thesis by auto
qed

text \<open>
  Claim C5 as stated fails: in the star graph node 1 has out-degree zero, and its span
  is 5, the number of nodes, while the final position is 4.
\<close>

theorem terminal_span_counterexample:
  "ispans star [0, 1, 2, 3, 4] = Inr [4, 5, 5, 5, 5] \<and>
   out_degree star ([0, 1, 2, 3, 4] ! 1) = 0 \<and>
   [4, 5, 5, 5, 5] ! 1 \<noteq> number_of_nodes star - 1"
  by (simp add: ispans_def span_of_def star_def succ_def out_degree_def index_err_def
      number_of_nodes_def)

section \<open>The star graph\<close>

text \<open>
  Claim C8, as the code has it. On the star graph with edges 0-1, 0-2, 0-3, 0-4 every
  sorting routine gives a plan of peak live-count 4, and the live-counts of the five
  steps are 0, 1, 2, 3, 4: the peak is attained at the final step only (where the
  buffer of node 0 and the buffers of the terminal nodes before it are all held), and at
  the step following node 0's execution one buffer is live.
\<close>

theorem star_peak:
  "peak_of lexicographical_topological_sort star = Inr 4 \<and>
   live_counts lexicographical_topological_sort star = Inr [0, 1, 2, 3, 4] \<and>
   peak_of topological_sort star = Inr 4 \<and>
   live_counts topological_sort star = Inr [0, 1, 2, 3, 4] \<and>
   peak_of topological_sort_stack star = Inr 4 \<and>
   live_counts topological_sort_stack star = Inr [0, 1, 2, 3, 4]"
  by code_simp

text \<open>
  Claim C8 as stated fails: at the step following node 0's execution (position 1) the
  live-count is 1, not the peak 4.
\<close>

theorem star_peak_counterexample:
  "lexicographical_topological_sort star = Inr [0, 1, 2, 3, 4] \<and>
   bind_err (live_counts lexicographical_topological_sort star) (\<lambda>cs. nth_err cs 1) = Inr 1 \<and>
   bind_err (live_counts lexicographical_topological_sort star) (\<lambda>cs. nth_err cs 1) \<noteq> Inr 4"
  by code_simp

section \<open>The conversion to a directed acyclic graph\<close>

lemma set_fold_insert_key: "set (fold insert_key xs acc) = set acc \<union> set xs"
  by (induction xs arbitrary: acc) (auto simp: insert_key_def)

lemma distinct_fold_insert_key: "distinct acc \<Longrightarrow> distinct (fold insert_key xs acc)"
  by (induction xs arbitrary: acc) (auto simp: insert_key_def)

lemma set_adj: "set (adj G n) = {v. (n, v) \<in> set (uedges G) \<or> (v, n) \<in> set (uedges G)}"
  by (auto simp: adj_def set_fold_insert_key split: if_splits)

lemma distinct_adj: "distinct (adj G n)"
  by (simp add: adj_def distinct_fold_insert_key)

lemma distinct_pairs:
  "distinct ns \<Longrightarrow> (\<And>u. distinct (f u)) \<Longrightarrow>
   distinct (concat (map (\<lambda>u. map (Pair u) (f u)) ns))"
  by (induction ns) (auto simp: distinct_map inj_on_def)

lemma distinct_edges_DiGraph: "distinct (unodes G) \<Longrightarrow> distinct (edges (DiGraph G))"
  by (simp add: DiGraph_def distinct_pairs distinct_adj)

lemma set_edges_DiGraph:
  "wf_ugraph G \<Longrightarrow>
   set (edges (DiGraph G)) = {(u, v). (u, v) \<in> set (uedges G) \<or> (v, u) \<in> set (uedges G)}"
  by (auto simp: DiGraph_def set_adj wf_ugraph_def list_all_iff)

lemma set_edge_list:
  "set (edge_list D) = {e \<in> set (edges D). fst e \<in> set (nodes D)}"
  by (force simp: edge_list_def succ_def)

lemma edges_to_dag:
  "wf_ugraph G \<Longrightarrow> edges (to_dag G) = filter (\<lambda>e. fst e < snd e) (edges (DiGraph G))"
proof -
  assume wf: "wf_ugraph G"
  have src: "\<And>a b. (a, b) \<in> set (edges (DiGraph G)) \<Longrightarrow> a \<in> set (nodes (DiGraph G))"
    by (auto simp: DiGraph_def)
  show ?thesis
    unfolding to_dag_def Let_def remove_edges_from_def
    using src by (auto simp: set_edge_list intro!: filter_cong)
qed

text \<open>
  Claim C7. For every well-formed undirected graph without self-loops, the conversion
  keeps the nodes and keeps, for every undirected edge between \<open>u\<close> and \<open>v\<close>,
  exactly the directed edge from the smaller to the larger identifier, once: the edge
  list has no repetition and, as a set, is the set of pairs \<open>(min u v, max u v)\<close>. So
  every edge of the result goes from a smaller to a larger identifier, and the result is
  acyclic.
\<close>

theorem to_dag_forward:
  assumes "wf_ugraph G" and "\<forall>e \<in> set (uedges G). fst e \<noteq> snd e"
  shows "nodes (to_dag G) = unodes G \<and>
    distinct (edges (to_dag G)) \<and>
    set (edges (to_dag G)) = {(min u v, max u v) | u v. (u, v) \<in> set (uedges G)} \<and>
    (\<forall>e \<in> set (edges (to_dag G)). fst e < snd e) \<and>
    acyclic (set (edges (to_dag G)))"
proof -
  have n: "nodes (to_dag G) = unodes G"
    by (simp add: to_dag_def Let_def remove_edges_from_def DiGraph_def)
  have d: "distinct (edges (to_dag G))"
    using assms(1) by (simp add: edges_to_dag distinct_edges_DiGraph wf_ugraph_def)
  have s: "set (edges (to_dag G)) = {(min u v, max u v) | u v. (u, v) \<in> set (uedges G)}"
  proof (intro set_eqI iffI)
    fix e assume "e \<in> set (edges (to_dag G))"
    then have e: "fst e < snd e" "(fst e, snd e) \<in> set (uedges G) \<or> (snd e, fst e) \<in> set (uedges G)"
      using assms(1) by (auto simp: edges_to_dag set_edges_DiGraph)
    from e(2) show "e \<in> {(min u v, max u v) | u v. (u, v) \<in> set (uedges G)}"
    proof
      assume "(fst e, snd e) \<in> set (uedges G)"
      moreover have "e = (min (fst e) (snd e), max (fst e) (snd e))" using e(1) by (cases e) auto
      ultimately show ?thesis by blast
    next
      assume "(snd e, fst e) \<in> set (uedges G)"
      moreover have "e = (min (snd e) (fst e), max (snd e) (fst e))" using e(1) by (cases e) auto
      ultimately show ?thesis by blast
    qed
  next
    fix e assume "e \<in> {(min u v, max u v) | u v. (u, v) \<in> set (uedges G)}"
    then obtain u v where uv: "e = (min u v, max u v)" "(u, v) \<in> set (uedges G)" by blast
    with assms(2) have "u \<noteq> v" by force
    with uv assms(1) show "e \<in> set (edges (to_dag G))"
      by (auto simp: edges_to_dag set_edges_DiGraph min_def max_def)
  qed
  have l: "\<forall>e \<in> set (edges (to_dag G)). fst e < snd e"
    using assms(1) by (simp add: edges_to_dag)
  have "set (edges (to_dag G)) \<subseteq> {(a, b). a < b}" using l by auto
  moreover have "acyclic {(a, b :: nat). a < b}"
    using wf_less by (auto intro: wf_acyclic simp: less_than_def[symmetric])
  ultimately have a: "acyclic (set (edges (to_dag G)))" by (rule acyclic_subset [rotated])
  from n d s l a show ?thesis by blast
qed

theorem to_dag_forward_witness:
  "wf_ugraph triangle \<and> list_all (\<lambda>e. fst e \<noteq> snd e) (uedges triangle) \<and>
   nodes (to_dag triangle) = [0, 1, 2] \<and>
   distinct (edges (to_dag triangle)) \<and>
   set (edges (to_dag triangle)) = {(0, 1), (1, 2), (0, 2)} \<and>
   list_all (\<lambda>e. fst e < snd e) (edges (to_dag triangle)) \<and>
   acyclic (set (edges (to_dag triangle)))"
proof -
  have wf: "wf_ugraph triangle" by (simp add: wf_ugraph_def triangle_def)
  have nl: "\<forall>e \<in> set (uedges triangle). fst e \<noteq> snd e" by (simp add: triangle_def)
  have "{(min u v, max u v) | u v. (u, v) \<in> set (uedges triangle)} =
      (\<lambda>e. (min (fst e) (snd e), max (fst e) (snd e))) ` set (uedges triangle)"
    by force
  then have ev: "{(min u v, max u v) | u v. (u, v) \<in> set (uedges triangle)} =
      {(0, 1), (1, 2), (0, 2)}"
    by (simp add: triangle_def numeral_2_eq_2)
  have nl': "list_all (\<lambda>e. fst e \<noteq> snd e) (uedges triangle)" by (simp add: triangle_def)
  have n: "unodes triangle = [0, 1, 2]" by (simp add: triangle_def)
  note r = to_dag_forward [OF wf nl, unfolded ev n]
  from wf nl' r show ?thesis unfolding list_all_iff by blast
qed

section \<open>Batches with a scalar seed\<close>

text \<open>
  Claim C6 at a failing input. With one graph requested and a scalar seed, the derived
  seed list \<^verbatim>\<open>range(seeds, seeds + ngraphs - 1)\<close> is empty, and the lookup
  \<^verbatim>\<open>seeds[0]\<close> raises \<^verbatim>\<open>IndexError\<close>: no graph is returned, whatever the
  random source, the seed and the node count.
\<close>

theorem get_graphs_scalar_seed_fails:
  "get_graphs lib ''WS'' \<lparr>param_P = Some 0.75, param_M = Some 4, param_K = Some 4\<rparr>
     1 (NodeCount n) (SeedInt s) g = Some (Inl IndexError)"
  by (simp add: get_graphs_def GraphGenerator_def nnodes_list_def seeds_list_def nth_err_def)

section \<open>The reordering search\<close>

text \<open>
  Claim C2 at a failing input. With one trial on the graph \<open>fork\<close> and the permutation
  \<open>[0, 1, 3, 2]\<close>, the search returns the peak 2 measured on the input graph together
  with the graph relabelled after the measurement, whose own liveness plan has peak 3.
\<close>

theorem search_returns_next_candidate:
  "search fork [[0, 1, 3, 2]] =
     Inr (Some \<lparr>nodes = [0, 1, 3, 2], edges = [(0, 3), (0, 2), (1, 3)]\<rparr>, 2) \<and>
   peak_of lexicographical_topological_sort
     \<lparr>nodes = [0, 1, 3, 2], edges = [(0, 3), (0, 2), (1, 3)]\<rparr> = Inr 3 \<and>
   peak_of lexicographical_topological_sort fork = Inr 2"
  by code_simp

section \<open>The executor on the two-node chain\<close>

lemma chain2_order:
  "topological_sort chain2 = Inr [0, 1]" "topological_sort_stack chain2 = Inr [0, 1]"
  by code_simp+

lemma chain2_liveness: "compute_liveness chain2 [0, 1] = Inr [[], [0]]"
  by code_simp

lemma chain2_init:
  "init_with_order Node chain2 [0, 1] =
     Inr \<lparr>nxgraph = chain2, node_modules = [Node True 0, Node False 1],
          nxorder = [0, 1], live = [[], [0]]\<rparr>"
  by (simp only: init_with_order_def chain2_liveness bind_err.simps)
     (simp add: chain2_def in_degree_def pred_def)

text \<open>
  Claim C1 at a failing input. On the chain with the single edge from 0 to 1 the buffer
  list at aggregation time holds the buffer of node 0 as well as that of node 1, and the
  result is the reduction of both, although node 0 has out-degree 1.
\<close>

theorem forward_keeps_nonterminal_buffer:
  "bind_err (RandomNetwork Node chain2) (\<lambda>net. outs_after net x 2) =
     Inr [Node True 0 [x], Node False 1 [Node True 0 [x]]] \<and>
   bind_err (RandomNetwork Node chain2) (\<lambda>net. forward mean net x) =
     Inr (mean [Node True 0 [x], Node False 1 [Node True 0 [x]]]) \<and>
   out_degree chain2 0 = 1 \<and> out_degree chain2 1 = 0"
proof -
  have 1: "bind_err (RandomNetwork Node chain2) (\<lambda>net. outs_after net x 2) =
     Inr [Node True 0 [x], Node False 1 [Node True 0 [x]]]"
    by (simp only: RandomNetwork_def chain2_order chain2_init bind_err.simps)
      (simp add: outs_after_def forward_step_def nth_err_def chain2_def in_degree_def
        pred_def index_err_def is_not_def)
  have 2: "bind_err (RandomNetwork Node chain2) (\<lambda>net. forward mean net x) =
     Inr (mean [Node True 0 [x], Node False 1 [Node True 0 [x]]])"
    by (simp only: RandomNetwork_def chain2_order chain2_init bind_err.simps)
      (simp add: forward_def forward_step_def nth_err_def chain2_def in_degree_def
        pred_def index_err_def is_not_def)
  have 3: "out_degree chain2 0 = 1 \<and> out_degree chain2 1 = 0"
    by (simp add: out_degree_def succ_def chain2_def)
  from 1 2 3 show ?thesis by blast
qed

section \<open>The rejection loop of the ER model\<close>

lemma attempt_state_0: "attempt_state lib nnode p seed g 0 = g"
  by (simp add: attempt_state_def)

lemma attempt_state_Suc:
  "attempt_state lib nnode p seed g (Suc i) =
   attempt_state lib nnode p seed (snd (call_seeded lib seed (erdos_renyi_graph lib nnode p) g)) i"
  by (simp only: attempt_state_def funpow_Suc_right o_apply)

lemma attempt_0:
  "attempt lib nnode p seed g 0 = fst (call_seeded lib seed (erdos_renyi_graph lib nnode p) g)"
  by (simp add: attempt_def attempt_state_0)

lemma attempt_Suc:
  "attempt lib nnode p seed g (Suc i) =
   attempt lib nnode p seed (snd (call_seeded lib seed (erdos_renyi_graph lib nnode p) g)) i"
  by (simp add: attempt_def attempt_state_Suc)

lemma er_loop_rejected:
  assumes "rejected (attempt lib nnode p seed g 0)"
  shows "er_loop lib nnode p seed g =
    er_loop lib nnode p seed (snd (call_seeded lib seed (erdos_renyi_graph lib nnode p) g))"
proof -
  obtain r g' where c: "call_seeded lib seed (erdos_renyi_graph lib nnode p) g = (r, g')"
    by (cases "call_seeded lib seed (erdos_renyi_graph lib nnode p) g")
  with assms obtain G where "r = Inr G" "is_connected G = Inr False"
    by (cases r) (auto simp: rejected_def attempt_0)
  with c show ?thesis by (subst er_loop.simps) simp
qed

lemma er_loop_accepted:
  assumes "attempt lib nnode p seed g 0 = Inr G" "is_connected G = Inr True"
  shows "er_loop lib nnode p seed g = Some (Inr (G, attempt_state lib nnode p seed g (Suc 0)))"
proof -
  obtain r g' where c: "call_seeded lib seed (erdos_renyi_graph lib nnode p) g = (r, g')"
    by (cases "call_seeded lib seed (erdos_renyi_graph lib nnode p) g")
  with assms have "r = Inr G" by (simp add: attempt_0)
  with c assms(2) show ?thesis
    by (subst er_loop.simps) (simp add: attempt_state_Suc attempt_state_0)
qed

lemma er_loop_returns:
  assumes "\<forall>i<n. rejected (attempt lib nnode p seed g i)"
    and "attempt lib nnode p seed g n = Inr G" and "is_connected G = Inr True"
  shows "er_loop lib nnode p seed g = Some (Inr (G, attempt_state lib nnode p seed g (Suc n)))"
  using assms
proof (induction n arbitrary: g)
  case 0
  then show ?case by (simp add: er_loop_accepted)
next
  case (Suc n)
  let ?g' = "snd (call_seeded lib seed (erdos_renyi_graph lib nnode p) g)"
  from Suc.prems(1) have r0: "rejected (attempt lib nnode p seed g 0)" by simp
  have "\<forall>i<n. rejected (attempt lib nnode p seed ?g' i)"
    using Suc.prems(1) by (auto simp: attempt_Suc [symmetric])
  moreover have "attempt lib nnode p seed ?g' n = Inr G"
    using Suc.prems(2) by (simp add: attempt_Suc)
  ultimately have "er_loop lib nnode p seed ?g' =
      Some (Inr (G, attempt_state lib nnode p seed ?g' (Suc n)))"
    using Suc.prems(3) by (intro Suc.IH)
  then show ?case
    using er_loop_rejected [OF r0] by (simp add: attempt_state_Suc [of _ _ _ _ g])
qed

lemma er_loop_diverges_aux:
  assumes "er_loop lib nnode p seed g = Some y"
  shows "\<not> (\<forall>i. rejected (attempt lib nnode p seed g i))"
proof (rule er_loop.raw_induct
    [where P = "\<lambda>lib nnode p seed g y. \<not> (\<forall>i. rejected (attempt lib nnode p seed g i))",
      rotated, OF assms])
  fix f :: "'a nxlib \<Rightarrow> int \<Rightarrow> real \<Rightarrow> int option \<Rightarrow> 'a \<Rightarrow> (error + ugraph \<times> 'a) option"
    and lib nnode p seed g y
  assume IH: "\<And>lib nnode p seed g y. f lib nnode p seed g = Some y \<Longrightarrow>
      \<not> (\<forall>i. rejected (attempt lib nnode p seed g i))"
    and body: "(case call_seeded lib seed (erdos_renyi_graph lib nnode p) g of
      (Inl e, g') \<Rightarrow> Some (Inl e)
      | (Inr G, g') \<Rightarrow>
          (case is_connected G of Inl e \<Rightarrow> Some (Inl e)
           | Inr c \<Rightarrow> if c then Some (Inr (G, g')) else f lib nnode p seed g')) = Some y"
  show "\<not> (\<forall>i. rejected (attempt lib nnode p seed g i))"
  proof
    assume all: "\<forall>i. rejected (attempt lib nnode p seed g i)"
    obtain r g' where c: "call_seeded lib seed (erdos_renyi_graph lib nnode p) g = (r, g')"
      by (cases "call_seeded lib seed (erdos_renyi_graph lib nnode p) g")
    from all have "rejected (attempt lib nnode p seed g 0)" by blast
    with c obtain G where G: "r = Inr G" "is_connected G = Inr False"
      by (cases r) (auto simp: rejected_def attempt_0)
    with c body have "f lib nnode p seed g' = Some y" by simp
    from IH [OF this] obtain i where "\<not> rejected (attempt lib nnode p seed g' i)" by blast
    with c have "\<not> rejected (attempt lib nnode p seed g (Suc i))" by (simp add: attempt_Suc)
    with all show False by blast
  qed
qed

lemma er_loop_diverges:
  "\<forall>i. rejected (attempt lib nnode p seed g i) \<Longrightarrow> er_loop lib nnode p seed g = None"
  using er_loop_diverges_aux [of lib nnode p seed g] by (cases "er_loop lib nnode p seed g") auto


lemma generate_ER:
  assumes "model gen = ''ER''" "param_P (gparams gen) = Some p"
  shows "generate lib gen nnode seed g =
    (case er_loop lib nnode p seed g of
       None \<Rightarrow> None
     | Some (Inl e) \<Rightarrow> Some (Inl e)
     | Some (Inr (G, g')) \<Rightarrow>
         Some (Inr (if directed gen then Directed (to_dag G) else Undirected G, g')))"
  using assms by (simp add: generate_def undirected_draw_def)

text \<open>
  Claim C3, as the code has it. For the ER model the rejection loop has no retry cap and
  never signals a timeout: when the first \<open>n\<close> draws are rejected and the next draw is
  connected, \<^verbatim>\<open>generate\<close> returns the graph of that draw, after \<open>n + 1\<close> draws,
  for every \<open>n\<close>; and when every draw is rejected it never returns.
\<close>

theorem er_rejection_unbounded:
  assumes "model gen = ''ER''" "param_P (gparams gen) = Some p"
  shows "((\<forall>i<n. rejected (attempt lib nnode p seed g i)) \<and>
      attempt lib nnode p seed g n = Inr G \<and> is_connected G = Inr True \<longrightarrow>
      generate lib gen nnode seed g =
        Some (Inr (if directed gen then Directed (to_dag G) else Undirected G,
                   attempt_state lib nnode p seed g (Suc n)))) \<and>
    ((\<forall>i. rejected (attempt lib nnode p seed g i)) \<longrightarrow>
      generate lib gen nnode seed g = None)"
proof (intro conjI impI)
  assume "(\<forall>i<n. rejected (attempt lib nnode p seed g i)) \<and>
      attempt lib nnode p seed g n = Inr G \<and> is_connected G = Inr True"
  then have "er_loop lib nnode p seed g =
      Some (Inr (G, attempt_state lib nnode p seed g (Suc n)))"
    by (intro er_loop_returns) auto
  then show "generate lib gen nnode seed g =
      Some (Inr (if directed gen then Directed (to_dag G) else Undirected G,
                 attempt_state lib nnode p seed g (Suc n)))"
    by (simp add: generate_ER [OF assms])
next
  assume "\<forall>i. rejected (attempt lib nnode p seed g i)"
  then have "er_loop lib nnode p seed g = None" by (rule er_loop_diverges)
  then show "generate lib gen nnode seed g = None"
    by (simp add: generate_ER [OF assms])
qed

lemma edgeless_2_disconnected: "is_connected (edgeless 2) = Inr False"
  by code_simp

lemma K2_connected: "is_connected K2 = Inr True"
  by code_simp

lemma K2_to_dag: "to_dag K2 = chain2"
  by code_simp

lemma attempt_edgeless_lib: "attempt edgeless_lib n p seed g i = Inr (edgeless n)"
  by (cases seed) (simp_all add: attempt_def call_seeded_def edgeless_lib_def)

lemma attempt_state_late_lib: "attempt_state late_lib n p None g i = g + i"
  by (induction i arbitrary: g) (simp_all add: attempt_state_0 attempt_state_Suc call_seeded_def late_lib_def)

lemma attempt_late_lib:
  "attempt late_lib n p None g i =
     Inr (if g + i < 2 then edgeless 2 else K2)"
  by (simp only: attempt_def attempt_state_late_lib) (simp add: call_seeded_def late_lib_def)

theorem er_rejection_unbounded_witness:
  "model er_generator = ''ER'' \<and> param_P (gparams er_generator) = Some 0 \<and>
   rejected (attempt late_lib 2 0 None 0 0) \<and> rejected (attempt late_lib 2 0 None 0 1) \<and>
   attempt late_lib 2 0 None 0 2 = Inr K2 \<and>
   is_connected K2 = Inr True \<and>
   generate late_lib er_generator 2 None 0 =
     Some (Inr (Directed chain2, 3)) \<and>
   rejected (attempt edgeless_lib 2 0 None 0 7) \<and>
   generate edgeless_lib er_generator 2 None 0 = None"
proof -
  have m: "model er_generator = ''ER''" and pp: "param_P (gparams er_generator) = Some 0"
    by (simp_all add: er_generator_def)
  have r: "\<forall>i<2. rejected (attempt late_lib 2 0 None 0 i)"
    by (simp add: attempt_late_lib rejected_def edgeless_2_disconnected)
  have a: "attempt late_lib 2 0 None 0 2 = Inr K2"
    by (simp add: attempt_late_lib)
  have e: "\<forall>i. rejected (attempt edgeless_lib 2 0 None 0 i)"
    by (simp add: attempt_edgeless_lib rejected_def edgeless_2_disconnected)
  have d: "directed er_generator" by (simp add: er_generator_def)
  from er_rejection_unbounded [OF m pp, of 2 late_lib 2 None 0 K2]
    r a K2_connected
  have 1: "generate late_lib er_generator 2 None 0 =
     Some (Inr (Directed chain2, 3))"
    by (simp add: d K2_to_dag attempt_state_late_lib)
  from er_rejection_unbounded [OF m pp, of 0 edgeless_lib 2 None 0] e
  have 2: "generate edgeless_lib er_generator 2 None 0 = None" by blast
  from m pp r a K2_connected 1 2 e show ?thesis by simp
qed

text \<open>
  Claim C3 as stated fails: with a random source that draws the graph without edges every
  time (the ER model at \<^verbatim>\<open>P = 0\<close>) and two nodes, \<^verbatim>\<open>generate\<close> neither returns
  nor signals an error.
\<close>

theorem er_no_retry_cap_counterexample:
  "GraphGenerator ''ER'' \<lparr>param_P = Some 0, param_M = None, param_K = None\<rparr> True =
     Inr er_generator \<and>
   generate edgeless_lib er_generator 2 None 0 = None"
proof -
  have "\<forall>i. rejected (attempt edgeless_lib 2 0 None 0 i)"
    by (simp add: attempt_edgeless_lib rejected_def edgeless_2_disconnected)
  then have "er_loop edgeless_lib 2 0 None 0 = None" by (rule er_loop_diverges)
  moreover have "model er_generator = ''ER''" "param_P (gparams er_generator) = Some 0"
    by (simp_all add: er_generator_def)
  ultimately have "generate edgeless_lib er_generator 2 None 0 = None"
    by (simp add: generate_ER)
  moreover have "GraphGenerator ''ER'' \<lparr>param_P = Some 0, param_M = None, param_K = None\<rparr> True =
     Inr er_generator"
    by (simp add: GraphGenerator_def er_generator_def)
  ultimately show ?thesis by blast
qed

lemma attempt_state_seeded: "attempt_state lib nnode p (Some s) g i = g"
  by (induction i) (simp_all add: attempt_state_def call_seeded_def)

lemma attempt_seeded:
  "attempt lib nnode p (Some s) g i = fst (erdos_renyi_graph lib nnode p (seeded lib s))"
  by (simp add: attempt_def call_seeded_def)

text \<open>
  Claim C10. For the ER model with an integer seed, every iteration of the rejection
  loop draws the same graph \<open>G\<close>, the one the seeded generator gives. So
  \<^verbatim>\<open>generate\<close> returns a graph exactly when \<open>G\<close> is connected (and then it returns
  the conversion of \<open>G\<close>, leaving the global generator alone), and when \<open>G\<close> is
  disconnected the call never returns. (On the null graph the connectivity test raises.)
\<close>

theorem er_fixed_seed:
  assumes "model gen = ''ER''" "param_P (gparams gen) = Some p"
    and "fst (erdos_renyi_graph lib nnode p (seeded lib s)) = Inr G"
  shows "(\<forall>i. attempt lib nnode p (Some s) g i = Inr G) \<and>
    ((\<exists>r. generate lib gen nnode (Some s) g = Some (Inr r)) \<longleftrightarrow> is_connected G = Inr True) \<and>
    (is_connected G = Inr True \<longrightarrow>
       generate lib gen nnode (Some s) g =
         Some (Inr (if directed gen then Directed (to_dag G) else Undirected G, g))) \<and>
    (is_connected G = Inr False \<longrightarrow> generate lib gen nnode (Some s) g = None)"
proof -
  have att: "\<forall>i. attempt lib nnode p (Some s) g i = Inr G"
    using assms(3) by (simp add: attempt_seeded)
  have yes: "generate lib gen nnode (Some s) g =
      Some (Inr (if directed gen then Directed (to_dag G) else Undirected G, g))"
    if "is_connected G = Inr True"
  proof -
    have "er_loop lib nnode p (Some s) g =
        Some (Inr (G, attempt_state lib nnode p (Some s) g (Suc 0)))"
      using att that by (intro er_loop_returns) auto
    then show ?thesis by (simp add: generate_ER [OF assms(1,2)] attempt_state_seeded)
  qed
  have no: "generate lib gen nnode (Some s) g = None" if "is_connected G = Inr False"
  proof -
    have "\<forall>i. rejected (attempt lib nnode p (Some s) g i)"
      using att that by (simp add: rejected_def)
    then have "er_loop lib nnode p (Some s) g = None" by (rule er_loop_diverges)
    then show ?thesis by (simp add: generate_ER [OF assms(1,2)])
  qed
  have err: "generate lib gen nnode (Some s) g = Some (Inl e)" if "is_connected G = Inl e" for e
  proof -
    have "call_seeded lib (Some s) (erdos_renyi_graph lib nnode p) g = (Inr G, g)"
      using assms(3) by (simp add: call_seeded_def)
    then have "er_loop lib nnode p (Some s) g = Some (Inl e)"
      using that by (subst er_loop.simps) simp
    then show ?thesis by (simp add: generate_ER [OF assms(1,2)])
  qed
  have iff: "(\<exists>r. generate lib gen nnode (Some s) g = Some (Inr r)) \<longleftrightarrow> is_connected G = Inr True"
  proof (cases "is_connected G")
    case (Inl e)
    with err [OF Inl] show ?thesis by simp
  next
    case (Inr c)
    with yes no show ?thesis by (cases c) auto
  qed
  from att iff yes no show ?thesis by blast
qed

theorem er_fixed_seed_witness:
  "model er_generator = ''ER'' \<and> param_P (gparams er_generator) = Some 0 \<and>
   fst (erdos_renyi_graph late_lib 2 0 (seeded late_lib 0)) = Inr (edgeless 2) \<and>
   is_connected (edgeless 2) = Inr False \<and>
   attempt late_lib 2 0 (Some 0) 0 9 = Inr (edgeless 2) \<and>
   generate late_lib er_generator 2 (Some 0) 0 = None \<and>
   fst (erdos_renyi_graph late_lib 2 0 (seeded late_lib 5)) =
     Inr K2 \<and>
   is_connected K2 = Inr True \<and>
   generate late_lib er_generator 2 (Some 5) 0 =
     Some (Inr (Directed chain2, 0))"
proof -
  have m: "model er_generator = ''ER''" and pp: "param_P (gparams er_generator) = Some 0"
    by (simp_all add: er_generator_def)
  have d: "directed er_generator" by (simp add: er_generator_def)
  have f0: "fst (erdos_renyi_graph late_lib 2 0 (seeded late_lib 0)) = Inr (edgeless 2)"
    by (simp add: late_lib_def)
  have f5: "fst (erdos_renyi_graph late_lib 2 0 (seeded late_lib 5)) =
     Inr K2"
    by (simp add: late_lib_def)
  note t0 = er_fixed_seed [OF m pp f0, of 0]
  note t5 = er_fixed_seed [OF m pp f5, of 0]
  from t0 edgeless_2_disconnected have 1: "generate late_lib er_generator 2 (Some 0) 0 = None"
    by blast
  from t0 have 2: "attempt late_lib 2 0 (Some 0) 0 9 = Inr (edgeless 2)" by blast
  from t5 K2_connected have 3: "generate late_lib er_generator 2 (Some 5) 0 =
     Some (Inr (Directed chain2, 0))"
    by (simp add: d K2_to_dag)
  from m pp f0 f5 edgeless_2_disconnected K2_connected 1 2 3 show ?thesis by simp
qed

section \<open>The lexicographical topological sort\<close>

lemma agrees_delete:
  assumes "agrees c U m h" "x \<in> U" "c x = 1"
  shows "agrees (c(x := 0)) U (AList.delete x m) (h @ [x])"
proof -
  from assms have xh: "x \<notin> set h" by (auto simp: agrees_def)
  show ?thesis
    unfolding agrees_def
  proof (intro conjI allI)
    show "distinct (map fst (AList.delete x m))"
      using assms(1) by (simp add: agrees_def distinct_delete)
    show "distinct (h @ [x])" using assms(1) xh by (simp add: agrees_def)
    show "v \<in> set (h @ [x]) \<longleftrightarrow> v \<in> U \<and> (c(x := 0)) v = 0" for v
      using assms by (auto simp: agrees_def)
    show "map_of (AList.delete x m) v = Some d \<longleftrightarrow>
        v \<in> U \<and> 0 < (c(x := 0)) v \<and> d = int ((c(x := 0)) v)" for v d
      using assms(1) by (auto simp: agrees_def delete_conv')
  qed
qed

lemma agrees_update:
  assumes "agrees c U m h" "x \<in> U" "1 < c x"
  shows "agrees (c(x := c x - 1)) U (AList.update x (int (c x) - 1) m) h"
  unfolding agrees_def
proof (intro conjI allI)
  show "distinct (map fst (AList.update x (int (c x) - 1) m))"
    using assms(1) by (simp add: agrees_def distinct_update)
  show "distinct h" using assms(1) by (simp add: agrees_def)
  show "v \<in> set h \<longleftrightarrow> v \<in> U \<and> (c(x := c x - 1)) v = 0" for v
    using assms by (auto simp: agrees_def)
  show "map_of (AList.update x (int (c x) - 1) m) v = Some d \<longleftrightarrow>
      v \<in> U \<and> 0 < (c(x := c x - 1)) v \<and> d = int ((c(x := c x - 1)) v)" for v d
    using assms by (auto simp: agrees_def update_conv')
qed

lemma dec_children_agrees:
  assumes "agrees c U m h" "distinct cs" "set cs \<subseteq> U" "\<forall>x \<in> set cs. 0 < c x"
  shows "\<exists>m' h'. dec_children cs (m, h) = Inr (m', h') \<and>
    agrees (\<lambda>v. if v \<in> set cs then c v - 1 else c v) U m' h'"
  using assms
proof (induction cs arbitrary: c m h)
  case Nil
  then show ?case by simp
next
  case (Cons x cs)
  from Cons.prems have x: "x \<in> U" "0 < c x" "x \<notin> set cs" by auto
  with Cons.prems(1) have mx: "map_of m x = Some (int (c x))" by (auto simp: agrees_def)
  show ?case
  proof (cases "c x = 1")
    case True
    let ?c = "c(x := 0)"
    have ag: "agrees ?c U (AList.delete x m) (h @ [x])"
      using Cons.prems(1) x(1) True by (rule agrees_delete)
    have "\<forall>y \<in> set cs. 0 < ?c y" using Cons.prems(4) x(3) by auto
    with Cons.IH [OF ag] Cons.prems(2,3) obtain m' h' where
      r: "dec_children cs (AList.delete x m, h @ [x]) = Inr (m', h')"
        "agrees (\<lambda>v. if v \<in> set cs then ?c v - 1 else ?c v) U m' h'"
      by auto
    have "(\<lambda>v. if v \<in> set cs then ?c v - 1 else ?c v) =
        (\<lambda>v. if v \<in> set (x # cs) then c v - 1 else c v)"
      using True x(3) by auto
    with r mx True show ?thesis by simp
  next
    case False
    let ?c = "c(x := c x - 1)"
    from False x(2) have gt: "1 < c x" by simp
    have ag: "agrees ?c U (AList.update x (int (c x) - 1) m) h"
      using Cons.prems(1) x(1) gt by (rule agrees_update)
    have "\<forall>y \<in> set cs. 0 < ?c y" using Cons.prems(4) x(3) by auto
    with Cons.IH [OF ag] Cons.prems(2,3) obtain m' h' where
      r: "dec_children cs (AList.update x (int (c x) - 1) m, h) = Inr (m', h')"
        "agrees (\<lambda>v. if v \<in> set cs then ?c v - 1 else ?c v) U m' h'"
      by auto
    have "(\<lambda>v. if v \<in> set cs then ?c v - 1 else ?c v) =
        (\<lambda>v. if v \<in> set (x # cs) then c v - 1 else c v)"
      using x(3) by auto
    moreover have "int (c x) - 1 \<noteq> 0" using gt by simp
    ultimately show ?thesis using r mx by simp
  qed
qed

lemma distinct_pred: "wf_digraph G \<Longrightarrow> distinct (pred G v)"
  by (auto simp: wf_digraph_def pred_def distinct_map inj_on_def intro: prod_eqI)

lemma distinct_succ: "wf_digraph G \<Longrightarrow> distinct (succ G v)"
  by (auto simp: wf_digraph_def succ_def distinct_map inj_on_def intro: prod_eqI)

lemma pred_succ: "u \<in> set (pred G v) \<longleftrightarrow> v \<in> set (succ G u)"
  by (force simp: pred_def succ_def)

lemma length_filter_insert:
  "distinct ps \<Longrightarrow> x \<notin> D \<Longrightarrow>
   length (filter (\<lambda>u. u \<notin> D) ps) =
   length (filter (\<lambda>u. u \<notin> insert x D) ps) + (if x \<in> set ps then 1 else 0)"
proof (induction ps)
  case Nil
  then show ?case by simp
next
  case (Cons p ps)
  show ?case
  proof (cases "p = x")
    case True
    with Cons.prems have "x \<notin> set ps" by simp
    then have "filter (\<lambda>u. u \<notin> insert x D) ps = filter (\<lambda>u. u \<notin> D) ps"
      by (intro filter_cong) auto
    with True Cons.prems show ?thesis by simp
  next
    case False
    with Cons show ?thesis by auto
  qed
qed

lemma remaining_insert:
  assumes "wf_digraph G" "x \<notin> D"
  shows "remaining G (insert x D) =
    (\<lambda>v. if v \<in> set (succ G x) then remaining G D v - 1 else remaining G D v)"
proof
  fix v
  show "remaining G (insert x D) v =
      (if v \<in> set (succ G x) then remaining G D v - 1 else remaining G D v)"
    using length_filter_insert [OF distinct_pred [OF assms(1)] assms(2), of v]
    by (simp add: remaining_def pred_succ)
qed

lemma remaining_0: "remaining G D v = 0 \<longleftrightarrow> set (pred G v) \<subseteq> D"
  by (auto simp: remaining_def filter_empty_conv)

lemma remaining_empty: "remaining G {} v = in_degree G v"
  by (simp add: remaining_def in_degree_def)

lemma valid_from_set:
  "valid_from G D t \<Longrightarrow> distinct t \<and> set t \<inter> D = {} \<and> set t \<subseteq> set (nodes G) \<and>
     set (nodes G) \<subseteq> D \<union> set t"
  by (induction t arbitrary: D) auto

lemma valid_from_remove1:
  "valid_from G D t \<Longrightarrow> x \<in> set t \<Longrightarrow> set (pred G x) \<subseteq> D \<Longrightarrow>
   valid_from G (insert x D) (remove1 x t)"
proof (induction t arbitrary: D)
  case Nil
  then show ?case by simp
next
  case (Cons y t)
  show ?case
  proof (cases "x = y")
    case True
    with Cons.prems show ?thesis by simp
  next
    case False
    with Cons.prems have "valid_from G (insert x (insert y D)) (remove1 x t)"
      by (intro Cons.IH) auto
    with False Cons.prems show ?thesis by (auto simp: insert_commute)
  qed
qed

lemma lex_le_refl: "lex_le xs xs"
  by (simp add: lex_le_def)

lemma lex_le_Cons: "lex_le (x # xs) (y # ys) \<longleftrightarrow> x < y \<or> (x = y \<and> lex_le xs ys)"
  by (auto simp: lex_le_def)

lemma agrees_remove1:
  assumes "agrees c U m h" "x \<in> set h"
  shows "agrees c (U - {x}) m (remove1 x h)"
proof -
  from assms have cx: "c x = 0" by (auto simp: agrees_def)
  from assms(1) have d: "distinct h" by (simp add: agrees_def)
  show ?thesis
    unfolding agrees_def
  proof (intro conjI allI)
    show "distinct (map fst m)" using assms(1) by (simp add: agrees_def)
    show "distinct (remove1 x h)" using d by simp
    show "v \<in> set (remove1 x h) \<longleftrightarrow> v \<in> U - {x} \<and> c v = 0" for v
      using assms(1) d by (auto simp: agrees_def)
    show "map_of m v = Some d \<longleftrightarrow> v \<in> U - {x} \<and> 0 < c v \<and> d = int (c v)" for v d
      using assms(1) cx by (auto simp: agrees_def)
  qed
qed

lemma agrees_empty:
  assumes "agrees c {} m h"
  shows "m = [] \<and> h = []"
proof -
  have "h = []" using assms by (cases h) (auto simp: agrees_def)
  moreover have "m = []"
  proof (cases m)
    case Nil
    then show ?thesis .
  next
    case (Cons p ps)
    then have "map_of m (fst p) = Some (snd p)" by simp
    with assms show ?thesis unfolding agrees_def by blast
  qed
  ultimately show ?thesis by simp
qed

lemma lex_loop_least:
  assumes wf: "wf_digraph G"
  shows "agrees (remaining G D) (set (nodes G) - D) m h \<Longrightarrow>
    (\<forall>v \<in> D. set (pred G v) \<subseteq> D) \<Longrightarrow> valid_from G D t \<Longrightarrow>
    \<exists>out. lex_loop G m h = Inr out \<and> valid_from G D out \<and> lex_le out t"
proof (induction "length t" arbitrary: D m h t)
  case 0
  then have t: "t = []" by simp
  with "0.prems"(3) have "set (nodes G) - D = {}" by simp
  with "0.prems"(1) have "m = [] \<and> h = []" by (simp add: agrees_empty)
  with t "0.prems"(3) show ?case by (simp add: lex_le_refl lex_loop.simps)
next
  case (Suc n)
  then obtain x t' where t: "t = x # t'" by (cases t) auto
  let ?U = "set (nodes G) - D"
  let ?c = "remaining G D"
  from Suc.prems(3) t have x: "x \<in> set (nodes G)" "x \<notin> D" "set (pred G x) \<subseteq> D" by auto
  then have xh: "x \<in> set h" using Suc.prems(1) by (auto simp: agrees_def remaining_0)
  then have hne: "h \<noteq> []" by auto
  define node where "node = Min (set h)"
  have nh: "node \<in> set h" unfolding node_def using hne by (intro Min_in) auto
  have nle: "node \<le> x" unfolding node_def using xh by (intro Min_le) auto
  from nh Suc.prems(1) have nU: "node \<in> set (nodes G)" "node \<notin> D" and nc: "?c node = 0"
    by (auto simp: agrees_def)
  from nc have npred: "set (pred G node) \<subseteq> D" by (simp add: remaining_0)
  let ?cs = "succ G node"
  have ag1: "agrees ?c (?U - {node}) m (remove1 node h)"
    using Suc.prems(1) nh by (rule agrees_remove1)
  have cs_pos: "\<forall>v \<in> set ?cs. 0 < ?c v"
  proof
    fix v assume "v \<in> set ?cs"
    then have "node \<in> set (pred G v)" by (simp add: pred_succ)
    with nU(2) have "\<not> set (pred G v) \<subseteq> D" by auto
    then show "0 < ?c v" using remaining_0 [of G D v] by simp
  qed
  have cs_sub: "set ?cs \<subseteq> ?U - {node}"
  proof
    fix v assume v: "v \<in> set ?cs"
    then have np: "node \<in> set (pred G v)" by (simp add: pred_succ)
    have "v \<in> set (nodes G)" using v succ_in_nodes [OF wf] by blast
    moreover have "v \<notin> D" using np nU(2) Suc.prems(2) by blast
    moreover have "v \<noteq> node" using cs_pos v nc by auto
    ultimately show "v \<in> ?U - {node}" by simp
  qed
  from dec_children_agrees [OF ag1 distinct_succ [OF wf] cs_sub cs_pos]
  obtain m' h' where
    dc: "dec_children ?cs (m, remove1 node h) = Inr (m', h')" and
    ag2: "agrees (\<lambda>v. if v \<in> set ?cs then ?c v - 1 else ?c v) (?U - {node}) m' h'"
    by blast
  have ag3: "agrees (remaining G (insert node D)) (set (nodes G) - insert node D) m' h'"
  proof -
    have "set (nodes G) - insert node D = ?U - {node}" by auto
    with ag2 show ?thesis by (simp add: remaining_insert [OF wf nU(2)])
  qed
  have closed: "\<forall>v \<in> insert node D. set (pred G v) \<subseteq> insert node D"
    using Suc.prems(2) npred by auto
  have nt: "node \<in> set t" using valid_from_set [OF Suc.prems(3)] nU by auto
  have vf: "valid_from G (insert node D) (remove1 node t)"
    using Suc.prems(3) nt npred by (rule valid_from_remove1)
  have len: "n = length (remove1 node t)"
    using Suc.hyps(2) nt by (simp add: length_remove1)
  from Suc.hyps(1) [OF len ag3 closed vf] obtain out' where
    out': "lex_loop G m' h' = Inr out'" "valid_from G (insert node D) out'"
      "lex_le out' (remove1 node t)"
    by blast
  have run: "lex_loop G m h = Inr (node # out')"
    using hne nU(1) dc out'(1) by (subst lex_loop.simps) (simp add: node_def [symmetric])
  have v: "valid_from G D (node # out')" using nU npred out'(2) by simp
  have l: "lex_le (node # out') t"
  proof (cases "node = x")
    case True
    with out'(3) t show ?thesis by (simp add: lex_le_Cons)
  next
    case False
    with nle t show ?thesis by (simp add: lex_le_Cons)
  qed
  from run v l show ?case by blast
qed

lemma agrees_initial:
  assumes "wf_digraph G"
  shows "agrees (remaining G {}) (set (nodes G) - {}) (indegree_map G) (zero_indegree G)"
  unfolding agrees_def
proof (intro conjI allI)
  have d: "distinct (nodes G)" using assms by (simp add: wf_digraph_def)
  have fst_eq: "map fst (indegree_map G) = filter (\<lambda>v. in_degree G v > 0) (nodes G)"
    by (simp add: indegree_map_def comp_def)
  show "distinct (map fst (indegree_map G))" using d by (simp add: fst_eq)
  show "distinct (zero_indegree G)" using d by (simp add: zero_indegree_def)
  show "v \<in> set (zero_indegree G) \<longleftrightarrow> v \<in> set (nodes G) - {} \<and> remaining G {} v = 0" for v
    by (auto simp: zero_indegree_def remaining_empty)
  show "map_of (indegree_map G) v = Some d \<longleftrightarrow>
      v \<in> set (nodes G) - {} \<and> 0 < remaining G {} v \<and> d = int (remaining G {} v)" for v d
    by (auto simp: indegree_map_def remaining_empty map_of_map_restrict restrict_map_def)
qed

lemma pos_Cons: "pos (x # xs) y = (if x = y then 0 else Suc (pos xs y))"
  by (cases "list_index xs y") (simp_all add: pos_def)

lemma list_index_pos: "x \<in> set xs \<Longrightarrow> list_index xs x = Some (pos xs x)"
  using list_index_None [of xs x] by (cases "list_index xs x") (auto simp: pos_def)

lemma pos_append_distinct: "distinct (pre @ x # s) \<Longrightarrow> pos (pre @ x # s) x = length pre"
  using pos_nth [of "pre @ x # s" "length pre"] by simp

lemma topological_edge:
  assumes "topological G t" "(u, v) \<in> set (edges G)"
  shows "u \<in> set t \<and> v \<in> set t \<and> pos t u < pos t v"
proof -
  from assms(1) have "\<forall>e \<in> set (edges G).
      (case (list_index t (fst e), list_index t (snd e)) of
         (Some i, Some j) \<Rightarrow> i < j | _ \<Rightarrow> False)"
    by (simp add: topological_def list_all_iff)
  from bspec [OF this assms(2)] have c: "(case (list_index t u, list_index t v) of
      (Some i, Some j) \<Rightarrow> i < j | _ \<Rightarrow> False)"
    by simp
  then obtain i j where ij: "list_index t u = Some i" "list_index t v = Some j" "i < j"
    by (auto split: option.splits)
  then have "u \<in> set t" "v \<in> set t"
    using list_index_None [of t u] list_index_None [of t v] by simp_all
  with ij show ?thesis by (simp add: pos_def)
qed

lemma topological_valid_suffix:
  "topological G t \<Longrightarrow> t = pre @ suf \<Longrightarrow> valid_from G (set pre) suf"
proof (induction suf arbitrary: pre)
  case Nil
  then show ?case by (simp add: topological_def)
next
  case (Cons x s)
  from Cons.prems have d: "distinct (pre @ x # s)" and st: "set t = set (nodes G)"
    by (simp_all add: topological_def)
  have px: "pos t x = length pre" using d Cons.prems(2) by (simp add: pos_append_distinct)
  have "set (pred G x) \<subseteq> set pre"
  proof
    fix u assume "u \<in> set (pred G x)"
    then have "(u, x) \<in> set (edges G)" by (auto simp: pred_def)
    from topological_edge [OF Cons.prems(1) this] px
    have u: "u \<in> set t" "pos t u < length pre" by simp_all
    have "t ! pos t u = u" using u(1) by (rule nth_pos)
    moreover have "t ! pos t u = pre ! pos t u" using u(2) Cons.prems(2) by (simp add: nth_append)
    ultimately show "u \<in> set pre" using u(2) by (metis nth_mem)
  qed
  moreover have "valid_from G (set (pre @ [x])) s"
    using Cons.prems by (intro Cons.IH) simp_all
  moreover have "x \<in> set (nodes G)" using st Cons.prems(2) by auto
  moreover have "x \<notin> set pre" using d by simp
  ultimately show ?case by simp
qed

lemma topological_valid_from: "topological G t \<Longrightarrow> valid_from G {} t"
  using topological_valid_suffix [of G t "[]" t] by simp

lemma valid_from_edges:
  "valid_from G D s \<Longrightarrow> v \<in> set s \<Longrightarrow> u \<in> set (pred G v) \<Longrightarrow>
   u \<in> D \<or> (u \<in> set s \<and> pos s u < pos s v)"
proof (induction s arbitrary: D)
  case Nil
  then show ?case by simp
next
  case (Cons x s)
  from valid_from_set [OF Cons.prems(1)] have xs: "x \<notin> set s" by simp
  show ?case
  proof (cases "v = x")
    case True
    with Cons.prems show ?thesis by auto
  next
    case False
    with Cons.prems have "v \<in> set s" "valid_from G (insert x D) s" by auto
    from Cons.IH [OF this(2) this(1) Cons.prems(3)]
    have "u \<in> insert x D \<or> (u \<in> set s \<and> pos s u < pos s v)" .
    with False xs show ?thesis by (auto simp: pos_Cons)
  qed
qed

lemma valid_from_topological:
  assumes "wf_digraph G" "valid_from G {} t"
  shows "topological G t"
proof -
  from valid_from_set [OF assms(2)] have d: "distinct t" and s: "set t = set (nodes G)"
    by auto
  have "list_all (\<lambda>e. case (list_index t (fst e), list_index t (snd e)) of
                     (Some i, Some j) \<Rightarrow> i < j | _ \<Rightarrow> False) (edges G)"
    unfolding list_all_iff
  proof
    fix e assume e: "e \<in> set (edges G)"
    then have "snd e \<in> set t" using assms(1) s by (auto simp: wf_digraph_def list_all_iff)
    moreover have "fst e \<in> set (pred G (snd e))" using e by (force simp: pred_def)
    ultimately have "fst e \<in> set t \<and> pos t (fst e) < pos t (snd e)"
      using valid_from_edges [OF assms(2)] by blast
    with \<open>snd e \<in> set t\<close> show "case (list_index t (fst e), list_index t (snd e)) of
                     (Some i, Some j) \<Rightarrow> i < j | _ \<Rightarrow> False"
      by (simp add: list_index_pos)
  qed
  with d s show ?thesis by (simp add: topological_def)
qed

text \<open>
  Claim C4, as the code has it. The order of the liveness harness (graph.py, line 114)
  is the lexicographically smallest topological order: for every well-formed graph that
  has a topological order \<open>t\<close> at all, \<^verbatim>\<open>lexicographical_topological_sort\<close> returns
  a topological order that is lexicographically at most \<open>t\<close>. Being a function of the
  graph, it is the same on identical graphs; so is the order of the executor
  (\<^verbatim>\<open>nx.topological_sort\<close>, randomnet.py, line 42), which is not covered here.
\<close>

theorem lexicographical_sort_least:
  assumes "wf_digraph G" "topological G t"
  shows "\<exists>order. lexicographical_topological_sort G = Inr order \<and>
    topological G order \<and> lex_le order t"
proof -
  have "\<exists>out. lex_loop G (indegree_map G) (zero_indegree G) = Inr out \<and>
      valid_from G {} out \<and> lex_le out t"
    using agrees_initial [OF assms(1)] topological_valid_from [OF assms(2)]
    by (intro lex_loop_least [OF assms(1)]) simp_all
  then show ?thesis
    using valid_from_topological [OF assms(1)]
    by (auto simp: lexicographical_topological_sort_def)
qed

theorem lexicographical_sort_least_witness:
  "wf_digraph zigzag \<and> topological zigzag [0, 2, 1, 3] \<and>
   lexicographical_topological_sort zigzag = Inr [0, 1, 2, 3] \<and>
   (\<exists>order. lexicographical_topological_sort zigzag = Inr order \<and>
      topological zigzag order \<and> lex_le order [0, 2, 1, 3])"
proof -
  have wf: "wf_digraph zigzag" by code_simp
  have t: "topological zigzag [0, 2, 1, 3]" by code_simp
  have v: "lexicographical_topological_sort zigzag = Inr [0, 1, 2, 3]" by code_simp
  from lexicographical_sort_least [OF wf t] wf t v show ?thesis by blast
qed

text \<open>
  Claim C4 as stated fails for the executor: on the graph \<open>zigzag\<close> the order of
  \<^verbatim>\<open>nx.topological_sort\<close> is \<open>[0, 2, 1, 3]\<close> (and \<open>[2, 0, 1, 3]\<close> up to
  networkx 2.5), while \<open>[0, 1, 2, 3]\<close> is a topological order and lexicographically
  smaller than both.
\<close>

theorem executor_order_counterexample:
  "wf_digraph zigzag \<and>
   bind_err (RandomNetwork sum_node zigzag) (\<lambda>net. Inr (nxorder net)) = Inr [0, 2, 1, 3] \<and>
   topological_sort zigzag = Inr [0, 2, 1, 3] \<and>
   topological_sort_stack zigzag = Inr [2, 0, 1, 3] \<and>
   topological zigzag [0, 1, 2, 3] \<and>
   lex_less [0, 1, 2, 3] [0, 2, 1, 3] \<and> lex_less [0, 1, 2, 3] [2, 0, 1, 3]"
  by code_simp

section \<open>The live list of the executor\<close>

lemma nths_cong:
  assumes "\<And>i. i < length xs \<Longrightarrow> i \<in> A \<longleftrightarrow> i \<in> B"
  shows "nths xs A = nths xs B"
proof -
  have "filter (\<lambda>p. snd p \<in> A) (zip xs [0..<length xs]) =
      filter (\<lambda>p. snd p \<in> B) (zip xs [0..<length xs])"
  proof (rule filter_cong [OF refl])
    fix p assume "p \<in> set (zip xs [0..<length xs])"
    then have "(fst p, snd p) \<in> set (zip xs [0..<length xs])" by simp
    then have "snd p \<in> set [0..<length xs]" by (rule set_zip_rightD)
    then show "(snd p \<in> A) = (snd p \<in> B)" using assms by simp
  qed
  then show ?thesis by (simp add: nths_def)
qed

lemma delete_indices_desc:
  "sorted_wrt (>) js \<Longrightarrow> \<forall>i \<in> set js. i < length xs \<Longrightarrow>
   delete_indices js xs = Inr (nths xs (- set js))"
proof (induction js arbitrary: xs)
  case Nil
  then show ?case by (simp add: nths_all)
next
  case (Cons i js)
  let ?ys = "take i xs @ drop (Suc i) xs"
  from Cons.prems have i: "i < length xs" and lt: "\<forall>j \<in> set js. j < i" by auto
  have len: "length ?ys = length xs - 1" using i by simp
  have "\<forall>j \<in> set js. j < length ?ys" using lt i len by auto
  with Cons.prems(1) have IH: "delete_indices js ?ys = Inr (nths ?ys (- set js))"
    by (intro Cons.IH) simp_all
  have "nths ?ys (- set js) = nths (take i xs) (- set js) @ drop (Suc i) xs"
  proof -
    have "{j. j + length (take i xs) \<in> - set js} = UNIV" using lt i by auto
    then show ?thesis by (simp add: nths_append nths_all)
  qed
  moreover have "nths xs (- set (i # js)) = nths (take i xs) (- set js) @ drop (Suc i) xs"
  proof -
    have xs: "xs = take i xs @ xs ! i # drop (Suc i) xs" using i by (simp add: id_take_nth_drop)
    have l: "length (take i xs) = i" using i by simp
    have 1: "nths (take i xs) (- set (i # js)) = nths (take i xs) (- set js)"
      by (rule nths_cong) (auto simp: l)
    have 2: "{j. j + i \<in> - set (i # js)} = {j. 0 < j}" using lt by auto
    have 3: "nths (xs ! i # drop (Suc i) xs) {j. 0 < j} = drop (Suc i) xs"
      by (simp add: nths_Cons nths_all)
    have "nths xs (- set (i # js)) =
        nths (take i xs) (- set (i # js)) @
        nths (xs ! i # drop (Suc i) xs) {j. j + i \<in> - set (i # js)}"
      by (subst xs) (simp only: nths_append l)
    with 1 2 3 show ?thesis by simp
  qed
  ultimately show ?case using IH i by simp
qed

lemma pos_inj: "x \<in> set xs \<Longrightarrow> y \<in> set xs \<Longrightarrow> pos xs x = pos xs y \<Longrightarrow> x = y"
  by (metis nth_pos)

lemma delete_positions:
  assumes "distinct lv" "distinct ds" "set ds \<subseteq> set lv"
  shows "delete_indices (rev (sort (map (pos lv) ds))) (map B lv) =
    Inr (map B (filter (\<lambda>i. i \<notin> set ds) lv))"
proof -
  let ?td = "map (pos lv) ds"
  have inj: "inj_on (pos lv) (set ds)"
  proof (rule inj_onI)
    fix x y assume "x \<in> set ds" "y \<in> set ds" "pos lv x = pos lv y"
    with assms(3) show "x = y" by (intro pos_inj [of x lv y]) auto
  qed
  then have d: "distinct ?td" using assms(2) by (simp add: distinct_map)
  have "sorted_wrt (<) (sort ?td)" using d by (simp add: strict_sorted_iff)
  then have s: "sorted_wrt (>) (rev (sort ?td))" by (simp add: sorted_wrt_rev)
  have b: "\<forall>i \<in> set (rev (sort ?td)). i < length (map B lv)"
    using assms(3) by (auto simp: pos_less)
  have "nths lv (- set ?td) = nths lv {i. i < length lv \<and> lv ! i \<notin> set ds}"
  proof (rule nths_cong)
    fix i assume i: "i < length lv"
    show "i \<in> - set ?td \<longleftrightarrow> i \<in> {i. i < length lv \<and> lv ! i \<notin> set ds}"
    proof -
      have "i \<in> set ?td \<longleftrightarrow> lv ! i \<in> set ds"
      proof
        assume "i \<in> set ?td"
        then obtain x where "x \<in> set ds" "i = pos lv x" by auto
        with assms(3) show "lv ! i \<in> set ds" by (auto simp: nth_pos)
      next
        assume "lv ! i \<in> set ds"
        moreover have "pos lv (lv ! i) = i" using assms(1) i by (rule pos_nth)
        ultimately show "i \<in> set ?td" by force
      qed
      with i show ?thesis by simp
    qed
  qed
  then have "nths lv (- set ?td) = filter (\<lambda>i. i \<notin> set ds) lv"
    by (simp add: filter_eq_nths)
  moreover have "delete_indices (rev (sort ?td)) (map B lv) =
      Inr (nths (map B lv) (- set (rev (sort ?td))))"
    using s b by (rule delete_indices_desc)
  ultimately show ?thesis by (simp add: nths_map)
qed

lemma zip_upt_nth: "zip [0..<length xs] xs = map (\<lambda>i. (i, xs ! i)) [0..<length xs]"
  by (rule nth_equalityI) simp_all

lemma live_at_eq:
  assumes "k \<le> length spans"
  shows "live_at spans k = filter (\<lambda>i. k \<le> spans ! i) [0..<k]"
proof -
  have "live_at spans k = filter (\<lambda>i. k \<le> spans ! i \<and> i < k) [0..<length spans]"
    by (simp add: live_at_def enumerate_eq_zip zip_upt_nth filter_map comp_def)
  also have "[0..<length spans] = [0..<k] @ [k..<length spans]"
    using assms upt_add_eq_append [of 0 k "length spans - k"] by simp
  also have "filter (\<lambda>i. k \<le> spans ! i \<and> i < k) ([0..<k] @ [k..<length spans]) =
      filter (\<lambda>i. k \<le> spans ! i) [0..<k]"
    by (auto intro: filter_cong simp: filter_empty_conv)
  finally show ?thesis .
qed

lemma live_at_Suc:
  assumes "Suc k \<le> length spans" "Suc k \<le> spans ! k"
  shows "live_at spans (Suc k) = filter (\<lambda>i. Suc k \<le> spans ! i) (live_at spans k) @ [k]"
proof -
  have "filter (\<lambda>i. Suc k \<le> spans ! i) (filter (\<lambda>i. k \<le> spans ! i) [0..<k]) =
      filter (\<lambda>i. Suc k \<le> spans ! i) [0..<k]"
    by (auto intro: filter_cong)
  with assms show ?thesis by (simp add: live_at_eq)
qed

lemma distinct_live_at: "k \<le> length spans \<Longrightarrow> distinct (live_at spans k)"
  by (simp add: live_at_eq)

lemma sorted_live_at: "k \<le> length spans \<Longrightarrow> sorted_wrt (<) (live_at spans k)"
  by (simp add: live_at_eq sorted_wrt_filter strict_sorted_iff)

lemma set_live_at: "k \<le> length spans \<Longrightarrow> set (live_at spans k) = {i. i < k \<and> k \<le> spans ! i}"
  by (auto simp: live_at_eq)

lemma spans_length:
  assumes "wf_digraph G" "set order = set (nodes G)" "ispans G order = Inr spans"
  shows "length spans = length order"
  using assms ispans_eq [OF assms(1,2)] by auto

lemma spans_nth:
  assumes "wf_digraph G" "set order = set (nodes G)" "ispans G order = Inr spans"
    and "i < length order"
  shows "spans ! i = (if succ G (order ! i) \<noteq> []
    then Max (pos order ` set (succ G (order ! i))) else number_of_nodes G)"
  using assms ispans_eq [OF assms(1,2)] by auto

lemma topological_props:
  "topological G order \<Longrightarrow> distinct order \<and> set order = set (nodes G)"
  by (simp add: topological_def)

lemma span_gt:
  assumes wf: "wf_digraph G" and top: "topological G order" and sp: "ispans G order = Inr spans"
    and i: "i < length order"
  shows "Suc i \<le> spans ! i"
proof -
  from top have d: "distinct order" and s: "set order = set (nodes G)"
    by (simp_all add: topological_props)
  show ?thesis
  proof (cases "succ G (order ! i) = []")
    case True
    have "length order = length (nodes G)"
      using d s wf by (metis distinct_card wf_digraph_def)
    with True i show ?thesis by (simp add: spans_nth [OF wf s sp i] number_of_nodes_def)
  next
    case False
    let ?S = "pos order ` set (succ G (order ! i))"
    have "Max ?S \<in> ?S" using False by (intro Max_in) auto
    then obtain v where v: "v \<in> set (succ G (order ! i))" "Max ?S = pos order v" by auto
    then have "(order ! i, v) \<in> set (edges G)" by (auto simp: succ_def)
    from topological_edge [OF top this] have "pos order (order ! i) < pos order v" by simp
    then have "i < Max ?S" using v(2) pos_nth [OF d i] by simp
    with False show ?thesis by (simp add: spans_nth [OF wf s sp i])
  qed
qed

lemma span_ge_succ:
  assumes wf: "wf_digraph G" and top: "topological G order" and sp: "ispans G order = Inr spans"
    and i: "i < length order" and j: "j < length order"
    and e: "order ! j \<in> set (succ G (order ! i))"
  shows "j \<le> spans ! i"
proof -
  from top have d: "distinct order" and s: "set order = set (nodes G)"
    by (simp_all add: topological_props)
  let ?S = "pos order ` set (succ G (order ! i))"
  have "pos order (order ! j) \<le> Max ?S" using e by (intro Max_ge) auto
  moreover have "succ G (order ! i) \<noteq> []" using e by auto
  ultimately show ?thesis using pos_nth [OF d j] by (simp add: spans_nth [OF wf s sp i])
qed

lemma span_is_succ:
  assumes wf: "wf_digraph G" and top: "topological G order" and sp: "ispans G order = Inr spans"
    and i: "i < length order" and lt: "spans ! i < length order"
  shows "order ! (spans ! i) \<in> set (succ G (order ! i))"
proof -
  from top have d: "distinct order" and s: "set order = set (nodes G)"
    by (simp_all add: topological_props)
  have len: "length order = length (nodes G)"
    using d s wf by (metis distinct_card wf_digraph_def)
  have ne: "succ G (order ! i) \<noteq> []"
  proof
    assume "succ G (order ! i) = []"
    then have "spans ! i = length order"
      using len by (simp add: spans_nth [OF wf s sp i] number_of_nodes_def)
    with lt show False by simp
  qed
  let ?S = "pos order ` set (succ G (order ! i))"
  have "Max ?S \<in> ?S" using ne by (intro Max_in) auto
  then obtain v where v: "v \<in> set (succ G (order ! i))" "Max ?S = pos order v" by auto
  then have "v \<in> set order" using succ_in_nodes [OF wf] s by auto
  then have "order ! pos order v = v" by (rule nth_pos)
  with v ne show ?thesis by (simp add: spans_nth [OF wf s sp i])
qed

lemma pred_position:
  assumes wf: "wf_digraph G" and top: "topological G order" and sp: "ispans G order = Inr spans"
    and j: "j < length order" and p: "p \<in> set (pred G (order ! j))"
  shows "p \<in> set order \<and> pos order p < j \<and> j \<le> spans ! pos order p \<and>
    pos order p \<in> set (live_at spans j)"
proof -
  from top have d: "distinct order" and s: "set order = set (nodes G)"
    by (simp_all add: topological_props)
  from p have e: "(p, order ! j) \<in> set (edges G)" by (auto simp: pred_def)
  from topological_edge [OF top e] have pin: "p \<in> set order"
    and lt: "pos order p < j" using pos_nth [OF d j] by simp_all
  have pl: "pos order p < length order" using pin by (rule pos_less)
  have "order ! j \<in> set (succ G (order ! pos order p))"
    using p pin by (simp add: nth_pos pred_succ)
  from span_ge_succ [OF wf top sp pl j this] have ge: "j \<le> spans ! pos order p" .
  have "j \<le> length spans" using j spans_length [OF wf s sp] by simp
  with lt ge have "pos order p \<in> set (live_at spans j)" by (simp add: set_live_at)
  with pin lt ge show ?thesis by simp
qed

lemma nth_err_live:
  "j < length order \<Longrightarrow> nth_err (live_lists order spans) j = Inr (live_at spans j)"
  by (simp add: nth_err_def live_lists_def)

lemma delete_positions_guarded:
  assumes "distinct lv" "distinct ds" "set ds \<subseteq> set lv"
  shows "(if length (map (pos lv) ds) \<noteq> 0
      then delete_indices (rev (sort (map (pos lv) ds))) (map B lv)
      else Inr (map B lv)) = Inr (map B (filter (\<lambda>i. i \<notin> set ds) lv))"
proof (cases ds)
  case Nil
  then show ?thesis by simp
next
  case (Cons a as)
  then have "length (map (pos lv) ds) \<noteq> 0" by simp
  with delete_positions [OF assms, of B] show ?thesis by simp
qed

lemma gather_eq:
  assumes wf: "wf_digraph G" and top: "topological G order" and sp: "ispans G order = Inr spans"
    and net: "nxorder net = order" "live net = live_lists order spans"
    and j: "Suc j < length order"
    and ps: "set ps \<subseteq> set (pred G (order ! j))"
  shows "gather net j (map B (live_at spans j)) ps =
    Inr (map (\<lambda>p. B (pos order p)) ps,
         map (pos (live_at spans j))
           (filter (\<lambda>i. \<not> Suc j \<le> spans ! i) (map (pos order) ps)))"
  using ps
proof (induction ps)
  case Nil
  then show ?case by simp
next
  case (Cons p ps)
  let ?L = "live_at spans j"
  let ?ip = "pos order p"
  from top have s: "set order = set (nodes G)" by (simp add: topological_props)
  have jl: "j < length order" using j by simp
  from Cons.prems have p: "p \<in> set (pred G (order ! j))" by simp
  from pred_position [OF wf top sp jl p] have
    pin: "p \<in> set order" and lt: "?ip < j" and inL: "?ip \<in> set ?L" by simp_all
  have 1: "index_err (nxorder net) p = Inr ?ip" using pin net(1) by (simp add: index_err_pos)
  have 2: "nth_err (live net) j = Inr ?L" using jl net(2) by (simp add: nth_err_live)
  have 3: "index_err ?L ?ip = Inr (pos ?L ?ip)" using inL by (rule index_err_pos)
  have 4: "nth_err (map B ?L) (pos ?L ?ip) = Inr (B ?ip)"
    using inL by (simp add: nth_err_def pos_less nth_pos)
  have 5: "is_not j (length (nxorder net) - 1)" using j net(1) by (simp add: is_not_def)
  have 6: "nth_err (live net) (j + 1) = Inr (live_at spans (Suc j))"
    using j net(2) by (simp add: nth_err_live)
  have "Suc j \<le> length spans" using j spans_length [OF wf s sp] by simp
  then have 7: "?ip \<notin> set (live_at spans (Suc j)) \<longleftrightarrow> \<not> Suc j \<le> spans ! ?ip"
    using lt by (simp add: set_live_at)
  have IH: "gather net j (map B ?L) ps =
    Inr (map (\<lambda>p. B (pos order p)) ps,
         map (pos ?L) (filter (\<lambda>i. \<not> Suc j \<le> spans ! i) (map (pos order) ps)))"
    using Cons.prems by (intro Cons.IH) simp
  show ?case
    by (simp only: gather.simps 1 2 3 4 5 6 7 IH bind_err.simps if_True) simp
qed

lemma forward_step_gather:
  assumes "nth_err (node_modules net) n = Inr f" "n \<in> set (nodes (nxgraph net))"
    and "in_degree (nxgraph net) n \<noteq> 0"
    and "gather net j outs (pred (nxgraph net) n) = Inr (y, td)"
    and "(if length td \<noteq> 0 then delete_indices (rev (sort td)) outs else Inr outs) = Inr outs'"
  shows "forward_step net x j n outs = Inr (outs' @ [f y])"
  using assms by (simp add: forward_step_def)

lemma forward_step_top:
  assumes "nth_err (node_modules net) n = Inr f" "n \<in> set (nodes (nxgraph net))"
    and "in_degree (nxgraph net) n = 0"
  shows "forward_step net x j n outs = Inr (outs @ [f [x]])"
  using assms by (simp add: forward_step_def)

lemma forward_step_eq:
  assumes wf: "wf_digraph G" and top: "topological G order" and sp: "ispans G order = Inr spans"
    and net: "nxgraph net = G" "nxorder net = order" "live net = live_lists order spans"
    and mods: "\<forall>n \<in> set (nodes G). n < length (node_modules net)"
    and j: "Suc j < length order"
  shows "\<exists>out. forward_step net x j (order ! j) (map B (live_at spans j)) =
    Inr (map B (filter (\<lambda>i. Suc j \<le> spans ! i) (live_at spans j)) @ [out])"
proof -
  let ?L = "live_at spans j"
  let ?n = "order ! j"
  let ?ds = "filter (\<lambda>i. \<not> Suc j \<le> spans ! i) (map (pos order) (pred G ?n))"
  let ?td = "map (pos ?L) ?ds"
  from top have d: "distinct order" and s: "set order = set (nodes G)"
    by (simp_all add: topological_props)
  have jl: "j < length order" using j by simp
  have len: "length spans = length order" by (rule spans_length [OF wf s sp])
  have nin: "?n \<in> set (nodes G)" using jl s by (metis nth_mem)
  then have m: "nth_err (node_modules net) ?n = Inr (node_modules net ! ?n)"
    using mods by (simp add: nth_err_def)
  have inj: "inj_on (pos order) (set (pred G ?n))"
  proof (rule inj_onI)
    fix a b assume a: "a \<in> set (pred G ?n)" and b: "b \<in> set (pred G ?n)"
      and eq: "pos order a = pos order b"
    from pred_position [OF wf top sp jl a] pred_position [OF wf top sp jl b]
    have "a \<in> set order" "b \<in> set order" by simp_all
    with eq show "a = b" by (rule pos_inj [rotated 2])
  qed
  have dds: "distinct ?ds" using inj distinct_pred [OF wf] by (simp add: distinct_map)
  have sub: "set ?ds \<subseteq> set ?L" using pred_position [OF wf top sp jl] by auto
  have dL: "distinct ?L" using jl len by (simp add: distinct_live_at)
  have del': "(if length ?td \<noteq> 0 then delete_indices (rev (sort ?td)) (map B ?L)
      else Inr (map B ?L)) = Inr (map B (filter (\<lambda>i. i \<notin> set ?ds) ?L))"
    using dL dds sub by (rule delete_positions_guarded)
  have flt: "filter (\<lambda>i. i \<notin> set ?ds) ?L = filter (\<lambda>i. Suc j \<le> spans ! i) ?L"
  proof (rule filter_cong [OF refl])
    fix i assume "i \<in> set ?L"
    then have i: "i < j" "j \<le> spans ! i" using jl len by (simp_all add: set_live_at)
    show "(i \<notin> set ?ds) = (Suc j \<le> spans ! i)"
    proof
      assume "i \<notin> set ?ds"
      show "Suc j \<le> spans ! i"
      proof (rule ccontr)
        assume n: "\<not> Suc j \<le> spans ! i"
        with i(2) have eq: "spans ! i = j" by simp
        have il: "i < length order" using i(1) jl by simp
        from span_is_succ [OF wf top sp il] eq jl
        have "?n \<in> set (succ G (order ! i))" by simp
        then have "order ! i \<in> set (pred G ?n)" by (simp add: pred_succ)
        moreover have "pos order (order ! i) = i" using d il by (rule pos_nth)
        ultimately have "i \<in> set (map (pos order) (pred G ?n))" by force
        with n have "i \<in> set ?ds" by simp
        with \<open>i \<notin> set ?ds\<close> show False by simp
      qed
    next
      assume "Suc j \<le> spans ! i"
      then show "i \<notin> set ?ds" by simp
    qed
  qed
  show ?thesis
  proof (cases "in_degree G ?n = 0")
    case True
    then have "pred G ?n = []" by (simp add: in_degree_def)
    then have "?ds = []" by simp
    then have "filter (\<lambda>i. i \<notin> set ?ds) ?L = ?L" by simp
    with flt have keep: "filter (\<lambda>i. Suc j \<le> spans ! i) ?L = ?L" by simp
    have "forward_step net x j ?n (map B ?L) = Inr (map B ?L @ [(node_modules net ! ?n) [x]])"
      using m nin True net(1) by (intro forward_step_top) simp_all
    with keep show ?thesis by simp
  next
    case False
    have g: "gather net j (map B ?L) (pred (nxgraph net) ?n) =
        Inr (map (\<lambda>p. B (pos order p)) (pred G ?n), ?td)"
      unfolding net(1) by (rule gather_eq [OF wf top sp net(2,3) j subset_refl])
    have n1: "?n \<in> set (nodes (nxgraph net))" using nin net(1) by simp
    have n2: "in_degree (nxgraph net) ?n \<noteq> 0" using False net(1) by simp
    have "forward_step net x j ?n (map B ?L) =
        Inr (map B (filter (\<lambda>i. i \<notin> set ?ds) ?L) @
          [(node_modules net ! ?n) (map (\<lambda>p. B (pos order p)) (pred G ?n))])"
      by (rule forward_step_gather [OF m n1 n2 g del'])
    with flt show ?thesis by simp
  qed
qed

lemma bind_err_Inr: "bind_err r Inr = r"
  by (cases r) simp_all

lemma forward_loop_append:
  "forward_loop net x (xs @ ys) outs =
   bind_err (forward_loop net x xs outs) (forward_loop net x ys)"
proof (induction xs arbitrary: outs)
  case Nil
  then show ?case by simp
next
  case (Cons p xs)
  obtain order n where p: "p = (order, n)" by (cases p)
  show ?case
    by (cases "forward_step net x order n outs") (simp_all add: p Cons.IH)
qed

lemma outs_after_Suc:
  assumes "k < length (nxorder net)"
  shows "outs_after net x (Suc k) =
    bind_err (outs_after net x k) (forward_step net x k (nxorder net ! k))"
proof -
  have "take (Suc k) (enumerate 0 (nxorder net)) =
      take k (enumerate 0 (nxorder net)) @ [(k, nxorder net ! k)]"
    using assms by (simp add: take_Suc_conv_app_nth nth_enumerate_eq)
  moreover have nil: "forward_loop net x [] = Inr" by (rule ext) simp
  moreover have "forward_loop net x [(k, nxorder net ! k)] = forward_step net x k (nxorder net ! k)"
    by (rule ext) (simp add: nil bind_err_Inr)
  ultimately show ?thesis by (simp add: outs_after_def forward_loop_append)
qed

lemma outs_after_aligned:
  assumes wf: "wf_digraph G" and top: "topological G order" and sp: "ispans G order = Inr spans"
    and net: "nxgraph net = G" "nxorder net = order" "live net = live_lists order spans"
    and mods: "\<forall>n \<in> set (nodes G). n < length (node_modules net)"
  shows "k < length order \<Longrightarrow>
    outs_after net x k = Inr (map (\<lambda>p. the (buffer_at net x p)) (live_at spans k))"
proof (induction k)
  case 0
  then show ?case by (simp add: outs_after_def live_at_eq)
next
  case (Suc k)
  let ?B = "\<lambda>p. the (buffer_at net x p)"
  from top have s: "set order = set (nodes G)" by (simp add: topological_props)
  have len: "length spans = length order" by (rule spans_length [OF wf s sp])
  from Suc.prems have k: "k < length order" by simp
  from Suc.IH [OF k] have IH: "outs_after net x k = Inr (map ?B (live_at spans k))" .
  from forward_step_eq [OF wf top sp net mods Suc.prems, of x ?B] obtain out where
    st: "forward_step net x k (order ! k) (map ?B (live_at spans k)) =
      Inr (map ?B (filter (\<lambda>i. Suc k \<le> spans ! i) (live_at spans k)) @ [out])"
    by blast
  have after: "outs_after net x (Suc k) =
      Inr (map ?B (filter (\<lambda>i. Suc k \<le> spans ! i) (live_at spans k)) @ [out])"
    using k net(2) IH st by (simp add: outs_after_Suc)
  then have "buffer_at net x k = Some out" by (simp add: buffer_at_def)
  then have Bk: "?B k = out" by simp
  have "live_at spans (Suc k) = filter (\<lambda>i. Suc k \<le> spans ! i) (live_at spans k) @ [k]"
    using Suc.prems len span_gt [OF wf top sp k] by (intro live_at_Suc) simp_all
  with after Bk show ?case by simp
qed

lemma init_with_order_fields:
  assumes "init_with_order Node G order = Inr net"
  shows "\<exists>spans. ispans G order = Inr spans \<and> nxgraph net = G \<and> nxorder net = order \<and>
    live net = live_lists order spans \<and> length (node_modules net) = length (nodes G)"
proof (cases "ispans G order")
  case (Inl e)
  with assms show ?thesis by (simp add: init_with_order_def compute_liveness_def)
next
  case (Inr spans)
  with assms show ?thesis by (auto simp: init_with_order_def compute_liveness_def)
qed

lemma live_list_alignment_order:
  assumes "wf_digraph G" "topological G order" "\<forall>n \<in> set (nodes G). n < length (nodes G)"
    and "init_with_order Node G order = Inr net" and "k < length order"
  shows "\<exists>lv outs. nth_err (live net) k = Inr lv \<and> sorted_wrt (<) lv \<and>
    outs_after net x k = Inr outs \<and> map Some outs = map (buffer_at net x) lv"
proof -
  from init_with_order_fields [OF assms(4)] obtain spans where
    sp: "ispans G order = Inr spans" and
    net: "nxgraph net = G" "nxorder net = order" "live net = live_lists order spans" and
    lm: "length (node_modules net) = length (nodes G)"
    by blast
  from assms(2) have s: "set order = set (nodes G)" by (simp add: topological_props)
  have len: "length spans = length order" by (rule spans_length [OF assms(1) s sp])
  have mods: "\<forall>n \<in> set (nodes G). n < length (node_modules net)"
    using assms(3) lm by simp
  let ?B = "\<lambda>p. the (buffer_at net x p)"
  let ?lv = "live_at spans k"
  have al: "outs_after net x j = Inr (map ?B (live_at spans j))" if "j < length order" for j
    using that by (rule outs_after_aligned [OF assms(1,2) sp net mods])
  have 1: "nth_err (live net) k = Inr ?lv" using assms(5) net(3) by (simp add: nth_err_live)
  have 2: "sorted_wrt (<) ?lv" using assms(5) len by (simp add: sorted_live_at)
  have "buffer_at net x p = Some (?B p)" if "p \<in> set ?lv" for p
  proof -
    from that have "p < k" using assms(5) len by (simp add: set_live_at)
    then have "Suc p < length order \<or> Suc p = length order" using assms(5) by auto
    then have "Suc p < length order" using \<open>p < k\<close> assms(5) by auto
    from al [OF this] show ?thesis by (simp add: buffer_at_def)
  qed
  then have 3: "map Some (map ?B ?lv) = map (buffer_at net x) ?lv" by simp
  from 1 2 al [OF assms(5)] 3 show ?thesis by blast
qed

lemma zigzag_liveness: "compute_liveness zigzag [0, 2, 1, 3] = Inr [[], [0], [0, 1], [1, 2]]"
  by code_simp

lemma zigzag_init: "init_with_order sum_node zigzag [0, 2, 1, 3] = Inr zigzag_net"
  by (simp only: init_with_order_def zigzag_liveness bind_err.simps zigzag_net_def)

lemma zigzag_outs: "outs_after zigzag_net 5 3 = Inr [6, 7]"
  by code_simp

lemma process_generation_agrees:
  assumes wf: "wf_digraph G"
  shows "agrees (remaining G D) U m h \<Longrightarrow> distinct zs \<Longrightarrow> set zs \<inter> D = {} \<Longrightarrow>
    \<forall>x \<in> set zs. x \<in> set (nodes G) \<and> set (succ G x) \<subseteq> U \<Longrightarrow>
    \<exists>m' h'. process_generation G zs (m, h) = Inr (m', h') \<and>
      agrees (remaining G (D \<union> set zs)) U m' h'"
proof (induction zs arbitrary: D m h)
  case Nil
  then show ?case by simp
next
  case (Cons x zs)
  from Cons.prems have x: "x \<in> set (nodes G)" "set (succ G x) \<subseteq> U" "x \<notin> D" "x \<notin> set zs"
    by auto
  have pos: "\<forall>v \<in> set (succ G x). 0 < remaining G D v"
  proof
    fix v assume "v \<in> set (succ G x)"
    then have "x \<in> set (pred G v)" by (simp add: pred_succ)
    with x(3) have "\<not> set (pred G v) \<subseteq> D" by auto
    then show "0 < remaining G D v" using remaining_0 [of G D v] by simp
  qed
  from dec_children_agrees [OF Cons.prems(1) distinct_succ [OF wf] x(2) pos]
  obtain m1 h1 where
    dc: "dec_children (succ G x) (m, h) = Inr (m1, h1)" and
    ag: "agrees (\<lambda>v. if v \<in> set (succ G x) then remaining G D v - 1 else remaining G D v) U m1 h1"
    by blast
  from ag have ag': "agrees (remaining G (insert x D)) U m1 h1"
    by (simp add: remaining_insert [OF wf x(3)])
  have "\<exists>m' h'. process_generation G zs (m1, h1) = Inr (m', h') \<and>
      agrees (remaining G (insert x D \<union> set zs)) U m' h'"
    using ag' Cons.prems(2,3,4) x(4) by (intro Cons.IH) auto
  then show ?case using x(1) dc by simp
qed

lemma valid_from_append:
  "distinct z \<Longrightarrow> set z \<subseteq> set (nodes G) \<Longrightarrow> set z \<inter> D = {} \<Longrightarrow>
   \<forall>x \<in> set z. set (pred G x) \<subseteq> D \<Longrightarrow> valid_from G (D \<union> set z) rest \<Longrightarrow>
   valid_from G D (z @ rest)"
proof (induction z arbitrary: D)
  case Nil
  then show ?case by simp
next
  case (Cons x z)
  have "valid_from G (insert x D) (z @ rest)"
    using Cons.prems by (intro Cons.IH) auto
  with Cons.prems show ?case by simp
qed

lemma agrees_generation:
  assumes "agrees c U m z"
  shows "agrees c (U - set z) m []"
  unfolding agrees_def
proof (intro conjI allI)
  show "distinct (map fst m)" using assms by (simp add: agrees_def)
  show "distinct []" by simp
  show "v \<in> set [] \<longleftrightarrow> v \<in> U - set z \<and> c v = 0" for v
    using assms by (auto simp: agrees_def)
  show "map_of m v = Some d \<longleftrightarrow> v \<in> U - set z \<and> 0 < c v \<and> d = int (c v)" for v d
    using assms by (auto simp: agrees_def)
qed

lemma generation_loop_valid:
  "wf_digraph G \<Longrightarrow> generation_loop G m z = Inr out \<Longrightarrow>
    agrees (remaining G D) (set (nodes G) - D) m z \<Longrightarrow>
    (\<forall>v \<in> D. set (pred G v) \<subseteq> D) \<Longrightarrow> valid_from G D out"
proof (induction G m z arbitrary: D out rule: generation_loop.induct)
  case (1 G m z)
  note wf = "1.prems"(1)
  show ?case
  proof (cases "z = []")
    case True
    with "1.prems"(2) have mo: "m = []" "out = []"
      by (auto simp: generation_loop.simps split: if_splits)
    have "set (nodes G) \<subseteq> D"
    proof
      fix v assume v: "v \<in> set (nodes G)"
      show "v \<in> D"
      proof (rule ccontr)
        assume "v \<notin> D"
        with v "1.prems"(3) True mo(1) show False
          unfolding agrees_def by (cases "remaining G D v = 0") auto
      qed
    qed
    with mo show ?thesis by simp
  next
    case False
    let ?U = "set (nodes G) - D"
    from "1.prems"(3) have zU: "set z \<subseteq> ?U" and z0: "\<forall>x \<in> set z. remaining G D x = 0"
      and dz: "distinct z"
      by (auto simp: agrees_def)
    have ag0: "agrees (remaining G D) (?U - set z) m []"
      using "1.prems"(3) by (rule agrees_generation)
    have ch: "\<forall>x \<in> set z. x \<in> set (nodes G) \<and> set (succ G x) \<subseteq> ?U - set z"
    proof (intro ballI conjI subsetI)
      fix x assume x: "x \<in> set z"
      then show "x \<in> set (nodes G)" using zU by auto
      fix c assume c: "c \<in> set (succ G x)"
      then have xp: "x \<in> set (pred G c)" by (simp add: pred_succ)
      have xD: "x \<notin> D" using x zU by auto
      have "c \<in> set (nodes G)" using c succ_in_nodes [OF wf] by blast
      moreover have "c \<notin> D" using xp xD "1.prems"(4) by blast
      moreover have "c \<notin> set z"
      proof
        assume "c \<in> set z"
        with z0 have "set (pred G c) \<subseteq> D" by (simp add: remaining_0)
        with xp xD show False by auto
      qed
      ultimately show "c \<in> ?U - set z" by simp
    qed
    have zD: "set z \<inter> D = {}" using zU by auto
    from process_generation_agrees [OF wf ag0 dz zD ch] obtain m' h' where
      pg: "process_generation G z (m, []) = Inr (m', h')" and
      ag1: "agrees (remaining G (D \<union> set z)) (?U - set z) m' h'"
      by blast
    from "1.prems"(2) False pg obtain rest where
      rest: "generation_loop G m' h' = Inr rest" and out: "out = z @ rest"
      by (cases "generation_loop G m' h'") (auto simp: generation_loop.simps [of G m z])
    have ag2: "agrees (remaining G (D \<union> set z)) (set (nodes G) - (D \<union> set z)) m' h'"
    proof -
      have "set (nodes G) - (D \<union> set z) = ?U - set z" by auto
      with ag1 show ?thesis by simp
    qed
    have zp: "\<forall>x \<in> set z. set (pred G x) \<subseteq> D" using z0 by (simp add: remaining_0)
    then have closed: "\<forall>v \<in> D \<union> set z. set (pred G v) \<subseteq> D \<union> set z"
      using "1.prems"(4) by auto
    have "valid_from G (D \<union> set z) rest"
      using False pg rest ag2 closed wf
      by (intro "1.IH" [of "(m', h')"]) simp_all
    then have "valid_from G D (z @ rest)"
      using dz zU zD zp by (intro valid_from_append) auto
    with out show ?thesis by simp
  qed
qed

lemma topological_sort_topological:
  assumes "wf_digraph G" "topological_sort G = Inr order"
  shows "topological G order"
proof -
  have "valid_from G {} order"
    using assms(2) agrees_initial [OF assms(1)]
    by (intro generation_loop_valid [OF assms(1), of "indegree_map G" "zero_indegree G"])
      (simp_all add: topological_sort_def)
  then show ?thesis by (rule valid_from_topological [OF assms(1)])
qed

text \<open>
  Claim C9. Let the network be built by \<^verbatim>\<open>RandomNetwork.__init__\<close> from a well-formed
  graph with node identifiers below the node count. Then at the start of every step
  \<open>k\<close> the executor has raised no error, and its buffer list \<^verbatim>\<open>outs\<close> holds exactly
  the buffers of the positions in the live list of step \<open>k\<close>, in the order of that
  list, which is ascending: the \<open>j\<close>-th buffer is the one produced at the \<open>j\<close>-th live
  position. The proof goes through the deletions in descending index order, and it holds
  for every topological order (\<open>live_list_alignment_order\<close>).
\<close>

theorem live_list_alignment:
  assumes "wf_digraph G" "\<forall>n \<in> set (nodes G). n < length (nodes G)"
    and "RandomNetwork Node G = Inr net" and "k < length (nxorder net)"
  shows "\<exists>lv outs. nth_err (live net) k = Inr lv \<and> sorted_wrt (<) lv \<and>
    outs_after net x k = Inr outs \<and> map Some outs = map (buffer_at net x) lv"
proof -
  from assms(3) obtain order where
    srt: "topological_sort G = Inr order" and init: "init_with_order Node G order = Inr net"
    by (cases "topological_sort G") (simp_all add: RandomNetwork_def)
  from init_with_order_fields [OF init] have o: "nxorder net = order" by blast
  have top: "topological G order" using assms(1) srt by (rule topological_sort_topological)
  from assms(4) o have k: "k < length order" by simp
  show ?thesis by (rule live_list_alignment_order [OF assms(1) top assms(2) init k])
qed

theorem live_list_alignment_witness:
  "wf_digraph zigzag \<and> list_all (\<lambda>n. n < length (nodes zigzag)) (nodes zigzag) \<and>
   RandomNetwork sum_node zigzag = Inr zigzag_net \<and> 3 < length (nxorder zigzag_net) \<and>
   nth_err (live zigzag_net) 3 = Inr [1, 2] \<and>
   outs_after zigzag_net 5 3 = Inr [6, 7] \<and>
   map Some [6, 7] = map (buffer_at zigzag_net 5) [1, 2]"
proof -
  have wf: "wf_digraph zigzag" by code_simp
  have ids: "\<forall>n \<in> set (nodes zigzag). n < length (nodes zigzag)" by (simp add: zigzag_def)
  have ids': "list_all (\<lambda>n. n < length (nodes zigzag)) (nodes zigzag)" by code_simp
  have srt: "topological_sort zigzag = Inr [0, 2, 1, 3]" by code_simp
  have rn: "RandomNetwork sum_node zigzag = Inr zigzag_net"
    by (simp only: RandomNetwork_def srt bind_err.simps zigzag_init)
  have k: "3 < length (nxorder zigzag_net)" by (simp add: zigzag_net_def)
  have lv: "nth_err (live zigzag_net) 3 = Inr [1, 2]" by code_simp
  from live_list_alignment [OF wf ids rn k, of 5] obtain lv' outs where
    r: "nth_err (live zigzag_net) 3 = Inr lv'" "outs_after zigzag_net 5 3 = Inr outs"
      "map Some outs = map (buffer_at zigzag_net 5) lv'"
    by blast
  from r(1) lv have "lv' = [1, 2]" by simp
  moreover from r(2) zigzag_outs have "outs = [6, 7]" by simp
  ultimately have "map Some [6, 7] = map (buffer_at zigzag_net 5) [1, 2]" using r(3) by simp
  with wf ids' rn k lv zigzag_outs show ?thesis by blast
qed

end
